theory Spec2Isabelle
  imports Main "HOL-Library.Word" "HOL-Library.Sublist"
begin

text \<open>
  A model of \<open>src/lib/customjson.ts\<close>: the marker of numbers that print with a decimal
  point (\<open>Double\<close>, \<open>isDoubleNumber\<close>, \<open>markAsDouble\<close>), the serializer
  (\<open>escapeString\<close>, \<open>serializeValue\<close>), the pretty printer (\<open>prettyPrint\<close>) and
  \<open>stringify\<close>. Exceptions are values: a function that can throw returns \<open>Inl\<close> of the
  error or \<open>Inr\<close> of its result.
\<close>

section \<open>Strings\<close>

text \<open>
  A JavaScript string is a sequence of 16-bit code units; \<open>json[i]\<close>, \<open>slice\<close>, \<open>repeat\<close>
  and the regular expression of \<open>escapeString\<close> (no \<open>u\<close> flag) all work on code units.
\<close>

type_synonym jschar = "16 word"
type_synonym jsstring = "jschar list"

definition str :: "string \<Rightarrow> jsstring" where
  "str s = map of_char s"

abbreviation DQUOTE :: jschar where "DQUOTE \<equiv> 0x22"
abbreviation BACKSLASH :: jschar where "BACKSLASH \<equiv> 0x5C"
abbreviation LBRACE :: jschar where "LBRACE \<equiv> 0x7B"
abbreviation RBRACE :: jschar where "RBRACE \<equiv> 0x7D"
abbreviation LBRACKET :: jschar where "LBRACKET \<equiv> 0x5B"
abbreviation RBRACKET :: jschar where "RBRACKET \<equiv> 0x5D"
abbreviation COMMA :: jschar where "COMMA \<equiv> 0x2C"
abbreviation COLON :: jschar where "COLON \<equiv> 0x3A"
abbreviation NEWLINE :: jschar where "NEWLINE \<equiv> 0x0A"
abbreviation SPACE :: jschar where "SPACE \<equiv> 0x20"

text \<open>\<open>parts.join(sep)\<close> on an array of strings.\<close>

fun join :: "jsstring \<Rightarrow> jsstring list \<Rightarrow> jsstring" where
  "join sep [] = []"
| "join sep [x] = x"
| "join sep (x # y # ys) = x @ sep @ join sep (y # ys)"

text \<open>Decimal and hexadecimal digits of a natural number, most significant first.\<close>

definition digit :: "nat \<Rightarrow> jschar" where
  "digit d = (if d < 10 then of_nat (48 + d) else of_nat (87 + d))"

function digits :: "nat \<Rightarrow> nat \<Rightarrow> jsstring" where
  "digits b n = (if b < 2 \<or> n < b then [digit n] else digits b (n div b) @ [digit (n mod b)])"
  by pat_completeness auto
termination
  by (relation "measure (\<lambda>(b, n). n)") auto

declare digits.simps [simp del]

text \<open>\<open>s.padStart(w, '0')\<close>.\<close>

definition padStart0 :: "nat \<Rightarrow> jsstring \<Rightarrow> jsstring" where
  "padStart0 w s = replicate (w - length s) 0x30 @ s"

section \<open>Errors\<close>

text \<open>
  The exceptions of the runtime that the source can meet, and \<open>Thrown\<close> for any exception
  thrown by code that a value brings along (a method, a getter, a trap of a Proxy).
\<close>

datatype error = TypeError | RangeError | Thrown

section \<open>Numbers\<close>

text \<open>
  A finite number is held as the decimal its text is printed from: \<open>Finite neg s e\<close> is
  \<open>\<plusminus> s \<sqdot> 10\<^sup>e\<close> (every finite double is such a decimal), \<open>s = 0\<close> is zero and
  \<open>Finite True 0 e\<close> is \<open>-0\<close>. \<open>Infinity neg\<close> is \<open>\<plusminus>Infinity\<close>.
\<close>

datatype jsnum = NaN | Infinity bool | Finite bool nat int

fun isFinite :: "jsnum \<Rightarrow> bool" where
  "isFinite (Finite neg s e) = True"
| "isFinite n = False"

text \<open>\<open>Number.isInteger\<close>: finite and without a fractional part.\<close>

fun Number_isInteger :: "jsnum \<Rightarrow> bool" where
  "Number_isInteger (Finite neg s e) = (0 \<le> e \<or> s mod 10 ^ nat (- e) = 0)"
| "Number_isInteger n = False"

text \<open>The decimal without trailing zeros in its digits, as the runtime holds it for printing.\<close>

function strip_zeros :: "nat \<Rightarrow> int \<Rightarrow> nat \<times> int" where
  "strip_zeros s e = (if s \<noteq> 0 \<and> s mod 10 = 0 then strip_zeros (s div 10) (e + 1) else (s, e))"
  by pat_completeness auto
termination
  by (relation "measure (\<lambda>(s, e). s)") auto

declare strip_zeros.simps [simp del]

text \<open>
  \<open>String(n)\<close>, ECMA-262 Number::toString in radix 10: with \<open>k\<close> digits \<open>s\<close> and the decimal
  point after the \<open>n\<close>-th digit, plain notation for \<open>-6 < n \<le> 21\<close> and exponent notation
  outside.
\<close>

definition positiveToString :: "nat \<Rightarrow> int \<Rightarrow> jsstring" where
  "positiveToString s0 e0 =
     (let (s, e) = strip_zeros s0 e0;
          ds = digits 10 s;
          k = int (length ds);
          n = e + k
      in if k \<le> n \<and> n \<le> 21 then ds @ replicate (nat (n - k)) 0x30
         else if 0 < n \<and> n \<le> 21 then take (nat n) ds @ str ''.'' @ drop (nat n) ds
         else if - 6 < n \<and> n \<le> 0 then str ''0.'' @ replicate (nat (- n)) 0x30 @ ds
         else (if k = 1 then ds else take 1 ds @ str ''.'' @ drop 1 ds)
              @ str ''e'' @ (if 0 \<le> n - 1 then str ''+'' else str ''-'')
              @ digits 10 (nat \<bar>n - 1\<bar>))"

fun numberToString :: "jsnum \<Rightarrow> jsstring" where
  "numberToString NaN = str ''NaN''"
| "numberToString (Infinity neg) = (if neg then str ''-Infinity'' else str ''Infinity'')"
| "numberToString (Finite neg s e) =
     (if s = 0 then str ''0''
      else (if neg then str ''-'' else []) @ positiveToString s e)"

text \<open>\<open>ToIntegerOrInfinity\<close>: truncation towards zero.\<close>

datatype extint = MinusInf | Whole int | PlusInf

fun ToIntegerOrInfinity :: "jsnum \<Rightarrow> extint" where
  "ToIntegerOrInfinity NaN = Whole 0"
| "ToIntegerOrInfinity (Infinity neg) = (if neg then MinusInf else PlusInf)"
| "ToIntegerOrInfinity (Finite neg s e) =
     (let m = (if 0 \<le> e then int s * 10 ^ nat e else int s div 10 ^ nat (- e))
      in Whole (if neg then - m else m))"

text \<open>\<open>a < b\<close> on numbers (false when either is \<open>NaN\<close>), by scaling to a common exponent.\<close>

fun scaled :: "bool \<Rightarrow> nat \<Rightarrow> int \<Rightarrow> int \<Rightarrow> int" where
  "scaled neg s e m = (if neg then - 1 else 1) * int s * 10 ^ nat (e - m)"

fun num_less :: "jsnum \<Rightarrow> jsnum \<Rightarrow> bool" where
  "num_less NaN b = False"
| "num_less a NaN = False"
| "num_less (Infinity na) (Infinity nb) = (na \<and> \<not> nb)"
| "num_less (Infinity na) (Finite nb sb eb) = na"
| "num_less (Finite na sa ea) (Infinity nb) = (\<not> nb)"
| "num_less (Finite na sa ea) (Finite nb sb eb) =
     (scaled na sa ea (min ea eb) < scaled nb sb eb (min ea eb))"

text \<open>\<open>Math.min(a, b)\<close> (of two zeros the first is returned; the source calls it with 10).\<close>

definition Math_min :: "jsnum \<Rightarrow> jsnum \<Rightarrow> jsnum" where
  "Math_min a b = (if a = NaN \<or> b = NaN then NaN else if num_less b a then b else a)"

text \<open>\<open>s.repeat(count)\<close>: a \<open>RangeError\<close> for a negative or infinite count.\<close>

definition repeat_int :: "jsstring \<Rightarrow> int \<Rightarrow> error + jsstring" where
  "repeat_int s n = (if n < 0 then Inl RangeError else Inr (concat (replicate (nat n) s)))"

fun repeat :: "jsstring \<Rightarrow> jsnum \<Rightarrow> error + jsstring" where
  "repeat s count =
     (case ToIntegerOrInfinity count of
        Whole n \<Rightarrow> repeat_int s n
      | MinusInf \<Rightarrow> Inl RangeError
      | PlusInf \<Rightarrow> Inl RangeError)"

section \<open>Dates\<close>

text \<open>
  A valid \<open>Date\<close> by its UTC fields; an \<open>Invalid Date\<close> is \<open>None\<close>, on which
  \<open>toISOString\<close> throws a \<open>RangeError\<close>.
\<close>

record jsdate =
  year :: int
  month :: nat
  day :: nat
  hours :: nat
  minutes :: nat
  seconds :: nat
  milliseconds :: nat

definition isoYear :: "int \<Rightarrow> jsstring" where
  "isoYear y =
     (if 0 \<le> y \<and> y \<le> 9999 then padStart0 4 (digits 10 (nat y))
      else (if y < 0 then str ''-'' else str ''+'') @ padStart0 6 (digits 10 (nat \<bar>y\<bar>)))"

definition toISOString :: "jsdate option \<Rightarrow> error + jsstring" where
  "toISOString d =
     (case d of
        None \<Rightarrow> Inl RangeError
      | Some t \<Rightarrow>
          Inr (isoYear (year t) @ str ''-'' @ padStart0 2 (digits 10 (month t))
               @ str ''-'' @ padStart0 2 (digits 10 (day t))
               @ str ''T'' @ padStart0 2 (digits 10 (hours t))
               @ str '':'' @ padStart0 2 (digits 10 (minutes t))
               @ str '':'' @ padStart0 2 (digits 10 (seconds t))
               @ str ''.'' @ padStart0 3 (digits 10 (milliseconds t))
               @ str ''Z''))"

section \<open>Values\<close>

text \<open>
  The values \<open>serializeValue\<close> dispatches on. A primitive value is held as it is. An object
  is read by \<open>serializeValue\<close> through property reads, method calls and type tests, and the
  object may answer each of them with code of its own: an own or inherited method in the
  place of a built-in one, a getter, a trap of a Proxy. An object is therefore held by what
  these reads give, each of them an exception or a result, in the order of the source:

  \<^item> \<open>numberData\<close>: the number that a Number object holds, as \<open>Object(n)\<close> builds one,
    and \<open>None\<close> on every other object. \<open>serializeValue\<close> does not read it but through
    \<open>valueOf()\<close>, where the built-in method of a Number object returns it.
  \<^item> \<open>marking\<close>: the read \<open>value[DOUBLE_MARKER]\<close>. \<open>Unmarked\<close> when it gives anything but
    \<open>true\<close>; \<open>Marked r\<close> when it gives \<open>true\<close> (the property is the object's own, copied
    from another object or inherited), with \<open>r\<close> what the call \<open>value.valueOf()\<close> then
    gives, which is \<open>valueOf\<close> of the marking (the source calls the method on a marked
    object and nowhere else); \<open>MarkerThrows\<close> when the read throws.
  \<^item> \<open>numeric\<close>: what \<open>valueOf()\<close> returned: a number, or any other value, held by what
    \<open>isFinite(num)\<close> and \<open>String(num)\<close> make of it (\<open>Number.isInteger\<close> is \<open>false\<close>
    on every value that is no number).
  \<^item> \<open>dating\<close>: the test \<open>value instanceof Date\<close>, and for a Date what the interpolation
    \<open>${value.toISOString()}\<close> gives.
  \<^item> \<open>conversion\<close>: the read \<open>obj.toJSON\<close>: no function, or a function with what the
    call \<open>obj.toJSON()\<close> gives, or a read that throws.
  \<^item> \<open>content\<close>: \<open>ArrayItems\<close> is an array (\<open>Array.isArray\<close>) with the built-in
    \<open>map\<close> and \<open>join\<close>, by its positions: \<open>None\<close> for a hole, else what reading the
    element gives. \<open>ArrayJoined\<close> is any other array (a \<open>map\<close>, a \<open>join\<close> or a
    constructor of its own, a Proxy of an array), held by what the interpolation
    \<open>${items.join(',')}\<close> gives. \<open>Properties\<close> is an
    object that is no array: what \<open>Object.keys(value)\<close> gives, an exception or the keys in
    order, each with what the read \<open>obj[key]\<close> gives.

  A read gives the same every time it occurs, and the code of a value changes nothing that
  \<open>serializeValue\<close> reads later. The built-in prototypes and globals are the ones of the
  language. A callable object is a function (\<open>typeof\<close> gives \<open>function\<close>). Values are
  finite trees: a cyclic object has none.
\<close>

datatype numeric = Numeric jsnum | NonNumeric "error + bool" "error + jsstring"

datatype marking = Unmarked | Marked (valueOf: "error + numeric") | MarkerThrows error

datatype dating = NotDate | IsDate "error + jsstring" | InstanceofThrows error

datatype 'v conversion = NoToJSON | ToJSON "error + 'v" | ToJSONThrows error

datatype 'v content =
    ArrayItems "(error + 'v) option list"
  | ArrayJoined "error + jsstring"
  | Properties "error + (jsstring \<times> (error + 'v)) list"

datatype 'v jsobject =
  JSObject (numberData: "jsnum option") (marking: marking) (dating: dating)
    (conversion: "'v conversion") (content: "'v content")

datatype jsval =
    VUndefined
  | VNull
  | VBool bool
  | VNumber jsnum
  | VBigInt int
  | VString jsstring
  | VSymbol
  | VFunction
  | VObject "jsval jsobject"

datatype jstype =
  TUndefined | TObject | TBoolean | TNumber | TBigInt | TString | TSymbol | TFunction

fun typeof :: "jsval \<Rightarrow> jstype" where
  "typeof VUndefined = TUndefined"
| "typeof VNull = TObject"
| "typeof (VBool b) = TBoolean"
| "typeof (VNumber n) = TNumber"
| "typeof (VBigInt i) = TBigInt"
| "typeof (VString s) = TString"
| "typeof VSymbol = TSymbol"
| "typeof VFunction = TFunction"
| "typeof (VObject ob) = TObject"

text \<open>
  The objects that literals and constructors of the language build, with nothing redefined:
  an array literal (\<open>None\<close> for an elision), an object literal of data properties (none of
  them a function named \<open>toJSON\<close>), and a Date, whose \<open>toISOString\<close> and \<open>toJSON\<close> are
  the built-in ones (\<open>Date.prototype.toJSON\<close> gives \<open>null\<close> for an invalid Date).
\<close>

definition arrayLiteral :: "jsval option list \<Rightarrow> jsval" where
  "arrayLiteral items =
     VObject (JSObject None Unmarked NotDate NoToJSON (ArrayItems (map (map_option Inr) items)))"

definition objectLiteral :: "(jsstring \<times> jsval) list \<Rightarrow> jsval" where
  "objectLiteral ps =
     VObject (JSObject None Unmarked NotDate NoToJSON
       (Properties (Inr (map (\<lambda>(key, v). (key, Inr v)) ps))))"

definition newDate :: "jsdate option \<Rightarrow> jsval" where
  "newDate d =
     VObject (JSObject None Unmarked (IsDate (toISOString d))
       (ToJSON (Inr (case toISOString d of Inl err \<Rightarrow> VNull | Inr isoText \<Rightarrow> VString isoText)))
       (Properties (Inr [])))"

section \<open>The marker\<close>

text \<open>
  \<open>Double(n)\<close>: a \<open>TypeError\<close> unless \<open>typeof n\<close> is \<open>number\<close>; otherwise \<open>Object(n)\<close>, a
  fresh Number object that holds \<open>n\<close>, with \<open>DOUBLE_MARKER\<close> set: its \<open>valueOf()\<close>
  is \<open>n\<close>, it is no Date, has no \<open>toJSON\<close>, is no array and has no key.
\<close>

fun Double :: "jsval \<Rightarrow> error + jsval" where
  "Double (VNumber n) =
     Inr (VObject (JSObject (Some n) (Marked (Inr (Numeric n))) NotDate NoToJSON
            (Properties (Inr []))))"
| "Double v = Inl TypeError"

text \<open>
  \<open>value[DOUBLE_MARKER]\<close> on an object: what its \<open>marking\<close> says, where \<open>undefined\<close>
  stands for any value but \<open>true\<close>.
\<close>

definition get_DOUBLE_MARKER :: "'v jsobject \<Rightarrow> error + jsval" where
  "get_DOUBLE_MARKER ob =
     (case marking ob of
        Unmarked \<Rightarrow> Inr VUndefined
      | Marked r \<Rightarrow> Inr (VBool True)
      | MarkerThrows err \<Rightarrow> Inl err)"

text \<open>
  \<open>typeof value === 'object' && value !== null\<close> holds of the objects and of no other
  value (\<open>typeof\<close> of a function is \<open>function\<close>): the marker is read off an object only.
\<close>

fun isDoubleNumber :: "jsval \<Rightarrow> error + bool" where
  "isDoubleNumber (VObject ob) =
     (case get_DOUBLE_MARKER ob of
        Inl err \<Rightarrow> Inl err
      | Inr m \<Rightarrow> Inr (m = VBool True))"
| "isDoubleNumber v = Inr False"

section \<open>String escaping\<close>

definition ESCAPE_MAP :: "jschar \<Rightarrow> jsstring option" where
  "ESCAPE_MAP =
     [DQUOTE \<mapsto> [BACKSLASH, DQUOTE],
      BACKSLASH \<mapsto> [BACKSLASH, BACKSLASH],
      0x08 \<mapsto> BACKSLASH # str ''b'',
      0x0C \<mapsto> BACKSLASH # str ''f'',
      0x0A \<mapsto> BACKSLASH # str ''n'',
      0x0D \<mapsto> BACKSLASH # str ''r'',
      0x09 \<mapsto> BACKSLASH # str ''t'']"

text \<open>The replacement of one code unit matched by \<open>/["\\\u0000-\u001F]/g\<close>.\<close>

definition escapeChar :: "jschar \<Rightarrow> jsstring" where
  "escapeChar c =
     (if c = DQUOTE \<or> c = BACKSLASH \<or> c \<le> 0x1F then
        (case ESCAPE_MAP c of
           Some e \<Rightarrow> e
         | None \<Rightarrow> BACKSLASH # str ''u'' @ padStart0 4 (digits 16 (unat c)))
      else [c])"

definition escapeString :: "jsstring \<Rightarrow> jsstring" where
  "escapeString s = concat (map escapeChar s)"

section \<open>Value serialization\<close>

text \<open>
  The result of \<open>serializeValue\<close>: \<open>Inl\<close> an exception, \<open>Inr None\<close> the value
  \<open>undefined\<close>, \<open>Inr (Some t)\<close> the text \<open>t\<close>.
\<close>

type_synonym serialized = "error + jsstring option"

text \<open>The first exception of a left-to-right \<open>map\<close> aborts it.\<close>

fun sequence :: "(error + 'a) list \<Rightarrow> error + 'a list" where
  "sequence [] = Inr []"
| "sequence (Inl err # rs) = Inl err"
| "sequence (Inr x # rs) = (case sequence rs of Inl err \<Rightarrow> Inl err | Inr xs \<Rightarrow> Inr (x # xs))"

text \<open>\<open>serializeValue(item) ?? 'null'\<close>.\<close>

definition orNull :: "serialized \<Rightarrow> error + jsstring" where
  "orNull r =
     (case r of
        Inl err \<Rightarrow> Inl err
      | Inr None \<Rightarrow> Inr (str ''null'')
      | Inr (Some t) \<Rightarrow> Inr t)"

text \<open>The callback of \<open>keys.map\<close>: \<open>null\<close> (here \<open>None\<close>) for a skipped key, else the pair.\<close>

definition pairOf :: "jsstring \<Rightarrow> serialized \<Rightarrow> error + jsstring option" where
  "pairOf key r =
     (case r of
        Inl err \<Rightarrow> Inl err
      | Inr None \<Rightarrow> Inr None
      | Inr (Some serializedValue) \<Rightarrow>
          Inr (Some ([DQUOTE] @ escapeString key @ [DQUOTE] @ [COLON] @ serializedValue)))"

text \<open>\<open>items.join(',')\<close> on an array with holes: a hole joins as the empty string.\<close>

definition joinItems :: "jsstring option list \<Rightarrow> jsstring" where
  "joinItems items = join [COMMA] (map (\<lambda>item. case item of None \<Rightarrow> [] | Some t \<Rightarrow> t) items)"

text \<open>
  The branch of a marked object, from \<open>num = value.valueOf()\<close> on. On a number the three
  cases; on another value \<open>isFinite(num)\<close> decides between \<open>null\<close> and \<open>String(num)\<close>,
  \<open>Number.isInteger(num)\<close> being \<open>false\<close>.
\<close>

definition serializeDouble :: "error + numeric \<Rightarrow> serialized" where
  "serializeDouble r =
     (case r of
        Inl err \<Rightarrow> Inl err
      | Inr (Numeric num) \<Rightarrow>
          if \<not> isFinite num then Inr (Some (str ''null''))
          else Inr (Some (if Number_isInteger num then numberToString num @ str ''.0''
                          else numberToString num))
      | Inr (NonNumeric finiteness numText) \<Rightarrow>
          (case finiteness of
             Inl err \<Rightarrow> Inl err
           | Inr fin \<Rightarrow>
               if \<not> fin then Inr (Some (str ''null''))
               else (case numText of Inl err \<Rightarrow> Inl err | Inr s \<Rightarrow> Inr (Some s))))"

text \<open>The branch of a Date: the text of \<open>toISOString()\<close> between quotes, as it is.\<close>

definition serializeDate :: "error + jsstring \<Rightarrow> serialized" where
  "serializeDate r =
     (case r of
        Inl err \<Rightarrow> Inl err
      | Inr isoText \<Rightarrow> Inr (Some ([DQUOTE] @ isoText @ [DQUOTE])))"

definition arrayText :: "(error + jsstring option) list \<Rightarrow> serialized" where
  "arrayText rs =
     (case sequence rs of
        Inl err \<Rightarrow> Inl err
      | Inr items \<Rightarrow> Inr (Some ([LBRACKET] @ joinItems items @ [RBRACKET])))"

definition objectText :: "(error + jsstring option) list \<Rightarrow> serialized" where
  "objectText rs =
     (case sequence rs of
        Inl err \<Rightarrow> Inl err
      | Inr pairs \<Rightarrow> Inr (Some ([LBRACE] @ join [COMMA] (List.map_filter id pairs) @ [RBRACE])))"

lemma size_item_in_set:
  "Some (Inr v) \<in> set xs \<Longrightarrow> size v < Suc (size_list (size_option (size_sum (\<lambda>x. 0) size)) xs)"
  by (induction xs) auto

lemma size_value_in_set:
  "(key, Inr v) \<in> set ps \<Longrightarrow>
   size v < Suc (size_list (size_prod (\<lambda>x. 0) (size_sum (\<lambda>x. 0) size)) ps)"
  by (induction ps) auto

lemma size_toJSON:
  "conversion ob = ToJSON (Inr r) \<Longrightarrow> size r < Suc (size_jsobject size ob)"
  by (cases ob) simp

lemma size_items:
  "content ob = ArrayItems xs \<Longrightarrow> Some (Inr v) \<in> set xs \<Longrightarrow> size v < Suc (size_jsobject size ob)"
  by (cases ob) (auto dest: size_item_in_set)

lemma size_properties:
  "content ob = Properties (Inr ps) \<Longrightarrow> (key, Inr v) \<in> set ps \<Longrightarrow>
   size v < Suc (size_jsobject size ob)"
  by (cases ob) (auto dest: size_value_in_set)

text \<open>
  \<open>serializeValue\<close>, test by test. On an object: the marker; \<open>instanceof Date\<close>;
  \<open>typeof obj.toJSON === 'function'\<close>; \<open>Array.isArray\<close>, where the built-in \<open>map\<close>
  skips a hole and calls back on every other position; and the keys of \<open>Object.keys\<close>.
  A \<open>bigint\<close> passes every test and reaches the final \<open>return undefined\<close>.
\<close>

function (sequential) serializeValue :: "jsval \<Rightarrow> serialized" where
  "serializeValue VUndefined = Inr None"
| "serializeValue VFunction = Inr None"
| "serializeValue VSymbol = Inr None"
| "serializeValue VNull = Inr (Some (str ''null''))"
| "serializeValue (VBool b) = Inr (Some (if b then str ''true'' else str ''false''))"
| "serializeValue (VString s) = Inr (Some ([DQUOTE] @ escapeString s @ [DQUOTE]))"
| "serializeValue (VObject ob) =
     (case isDoubleNumber (VObject ob) of
        Inl err \<Rightarrow> Inl err
      | Inr marked \<Rightarrow>
          if marked then serializeDouble (valueOf (marking ob))
          else
            (case dating ob of
               InstanceofThrows err \<Rightarrow> Inl err
             | IsDate isoText \<Rightarrow> serializeDate isoText
             | NotDate \<Rightarrow>
                 (case conversion ob of
                    ToJSONThrows err \<Rightarrow> Inl err
                  | ToJSON result \<Rightarrow>
                      (case result of Inl err \<Rightarrow> Inl err | Inr r \<Rightarrow> serializeValue r)
                  | NoToJSON \<Rightarrow>
                      (case content ob of
                         ArrayItems elems \<Rightarrow>
                           arrayText (map (\<lambda>item. case item of
                                             None \<Rightarrow> Inr None
                                           | Some (Inl err) \<Rightarrow> Inl err
                                           | Some (Inr v) \<Rightarrow>
                                               map_sum id Some (orNull (serializeValue v))) elems)
                       | ArrayJoined joinedText \<Rightarrow>
                           (case joinedText of
                              Inl err \<Rightarrow> Inl err
                            | Inr s \<Rightarrow> Inr (Some ([LBRACKET] @ s @ [RBRACKET])))
                       | Properties keys \<Rightarrow>
                           (case keys of
                              Inl err \<Rightarrow> Inl err
                            | Inr ps \<Rightarrow>
                                objectText (map (\<lambda>(key, r). case r of
                                                   Inl err \<Rightarrow> Inl err
                                                 | Inr v \<Rightarrow> pairOf key (serializeValue v)) ps))))))"
| "serializeValue (VNumber n) =
     (if \<not> isFinite n then Inr (Some (str ''null'')) else Inr (Some (numberToString n)))"
| "serializeValue (VBigInt i) = Inr None"
  by pat_completeness auto
termination
  by (relation "measure size") (auto dest: size_toJSON size_items size_properties)

section \<open>Pretty printing\<close>

text \<open>\<open>json[i]\<close>: \<open>undefined\<close> (here \<open>None\<close>) outside the string.\<close>

definition charAt :: "jsstring \<Rightarrow> int \<Rightarrow> jschar option" where
  "charAt s i = (if 0 \<le> i \<and> i < int (length s) then Some (s ! nat i) else None)"

text \<open>What \<open>result.push(c)\<close> adds to the joined result: nothing for \<open>undefined\<close>.\<close>

definition pushed :: "jschar option \<Rightarrow> jsstring" where
  "pushed c = (case c of None \<Rightarrow> [] | Some x \<Rightarrow> [x])"

text \<open>
  The \<open>for\<close> loop of \<open>prettyPrint\<close>, from index \<open>i\<close> with the loop's variables; \<open>result\<close> is
  the array of pushed strings, held joined. \<open>indent.repeat(depth)\<close> throws a \<open>RangeError\<close>
  for a negative depth.
\<close>

function prettyPrint_loop ::
  "jsstring \<Rightarrow> jsstring \<Rightarrow> nat \<Rightarrow> int \<Rightarrow> bool \<Rightarrow> jsstring \<Rightarrow> error + jsstring" where
  "prettyPrint_loop json indent i depth inString result =
     (if \<not> i < length json then Inr result
      else if inString then
        (if json ! i = BACKSLASH then
           prettyPrint_loop json indent (i + 2) depth inString
             (result @ [json ! i] @ pushed (charAt json (int i + 1)))
         else if json ! i = DQUOTE then
           prettyPrint_loop json indent (i + 1) depth False (result @ [json ! i])
         else prettyPrint_loop json indent (i + 1) depth inString (result @ [json ! i]))
      else if json ! i = DQUOTE then
        prettyPrint_loop json indent (i + 1) depth True (result @ [json ! i])
      else if json ! i = LBRACE \<or> json ! i = LBRACKET then
        (if charAt json (int i + 1) \<noteq> Some RBRACE \<and> charAt json (int i + 1) \<noteq> Some RBRACKET then
           (case repeat_int indent (depth + 1) of
              Inl err \<Rightarrow> Inl err
            | Inr ind \<Rightarrow>
                prettyPrint_loop json indent (i + 1) (depth + 1) inString
                  (result @ [json ! i] @ [NEWLINE] @ ind))
         else prettyPrint_loop json indent (i + 1) depth inString (result @ [json ! i]))
      else if json ! i = RBRACE \<or> json ! i = RBRACKET then
        (if charAt json (int i - 1) \<noteq> Some LBRACE \<and> charAt json (int i - 1) \<noteq> Some LBRACKET then
           (case repeat_int indent (depth - 1) of
              Inl err \<Rightarrow> Inl err
            | Inr ind \<Rightarrow>
                prettyPrint_loop json indent (i + 1) (depth - 1) inString
                  (result @ [NEWLINE] @ ind @ [json ! i]))
         else prettyPrint_loop json indent (i + 1) depth inString (result @ [json ! i]))
      else if json ! i = COMMA then
        (case repeat_int indent depth of
           Inl err \<Rightarrow> Inl err
         | Inr ind \<Rightarrow>
             prettyPrint_loop json indent (i + 1) depth inString (result @ [COMMA, NEWLINE] @ ind))
      else if json ! i = COLON then
        prettyPrint_loop json indent (i + 1) depth inString (result @ [COLON, SPACE])
      else prettyPrint_loop json indent (i + 1) depth inString (result @ [json ! i]))"
  by pat_completeness auto
termination
  by (relation "measure (\<lambda>(json, indent, i, depth, inString, result). length json - i)") auto

declare prettyPrint_loop.simps [simp del]

definition prettyPrint :: "jsstring \<Rightarrow> jsstring \<Rightarrow> error + jsstring" where
  "prettyPrint json indent = prettyPrint_loop json indent 0 0 False []"

section \<open>The main entry point\<close>

text \<open>The \<open>space\<close> argument: \<open>string | number | null\<close>, or left out.\<close>

datatype space = SpaceUndefined | SpaceNull | SpaceNumber jsnum | SpaceString jsstring

text \<open>\<open>!space\<close>: \<open>undefined\<close>, \<open>null\<close>, \<open>NaN\<close>, a zero and the empty string are falsy.\<close>

fun falsy :: "space \<Rightarrow> bool" where
  "falsy SpaceUndefined = True"
| "falsy SpaceNull = True"
| "falsy (SpaceNumber NaN) = True"
| "falsy (SpaceNumber (Finite neg s e)) = (s = 0)"
| "falsy (SpaceNumber (Infinity neg)) = False"
| "falsy (SpaceString s) = (s = [])"

text \<open>
  \<open>typeof space === 'number' ? ' '.repeat(Math.min(space, 10)) : String(space).slice(0, 10)\<close>.
\<close>

fun indentOf :: "space \<Rightarrow> error + jsstring" where
  "indentOf (SpaceNumber n) = repeat [SPACE] (Math_min n (Finite False 10 0))"
| "indentOf (SpaceString s) = Inr (take 10 s)"
| "indentOf SpaceNull = Inr (take 10 (str ''null''))"
| "indentOf SpaceUndefined = Inr (take 10 (str ''undefined''))"

text \<open>The replacer is accepted and never read.\<close>

definition stringify :: "jsval \<Rightarrow> 'r \<Rightarrow> space \<Rightarrow> serialized" where
  "stringify value replacer space =
     (case serializeValue value of
        Inl err \<Rightarrow> Inl err
      | Inr None \<Rightarrow> Inr None
      | Inr (Some serialized) \<Rightarrow>
          if falsy space then Inr (Some serialized)
          else
            (case indentOf space of
               Inl err \<Rightarrow> Inl err
             | Inr indent \<Rightarrow>
                 if indent = [] then Inr (Some serialized)
                 else map_sum id Some (prettyPrint serialized indent)))"

section \<open>Marking fields\<close>

text \<open>
  \<open>markAsDouble\<close> reads and assigns properties of the object it is given, so there an
  object is held by its properties. \<open>Data v writable\<close> is a data property of an ordinary
  object: it reads \<open>v\<close>, and an assignment, where it is allowed, stores the value assigned.
  \<open>Accessor g s\<close> is any other property, one that answers with code of its own or of the
  runtime (an accessor property; a property behind a Proxy; the \<open>length\<close> of an array):
  \<open>g\<close> is what a read gives, and \<open>s v\<close> what the assignment of \<open>v\<close> does, an exception
  or the property as it is from then on (an accessor without a setter throws a
  \<open>TypeError\<close>, the module being strict code). An object has its own properties, the
  properties of its prototype chain, nearest first, and the flag of an extensible object,
  which is false once the object is frozen, sealed or closed to extensions.
\<close>

datatype property = Data jsval bool | Accessor "error + jsval" "jsval \<Rightarrow> error + property"

record jsrecord =
  own :: "(jsstring \<times> property) list"
  inherited :: "(jsstring \<times> property) list"
  extensible :: bool

text \<open>The property that \<open>obj[key]\<close> finds, and whether it is the object's own.\<close>

definition findProp :: "jsrecord \<Rightarrow> jsstring \<Rightarrow> (bool \<times> property) option" where
  "findProp ob key =
     (case map_of (own ob) key of
        Some p \<Rightarrow> Some (True, p)
      | None \<Rightarrow> (case map_of (inherited ob) key of Some p \<Rightarrow> Some (False, p) | None \<Rightarrow> None))"

text \<open>The read \<open>obj[key]\<close>: \<open>undefined\<close> for a key that is nowhere on the chain.\<close>

definition getProp :: "jsrecord \<Rightarrow> jsstring \<Rightarrow> error + jsval" where
  "getProp ob key =
     (case findProp ob key of
        None \<Rightarrow> Inr VUndefined
      | Some (isOwn, Data v writable) \<Rightarrow> Inr v
      | Some (isOwn, Accessor g s) \<Rightarrow> g)"

fun replaceProp ::
  "(jsstring \<times> property) list \<Rightarrow> jsstring \<Rightarrow> property \<Rightarrow> (jsstring \<times> property) list" where
  "replaceProp [] key p = []"
| "replaceProp ((k, q) # ps) key p =
     (if k = key then (k, p) # ps else (k, q) # replaceProp ps key p)"

text \<open>
  The assignment \<open>obj[key] = v\<close> in strict code. An own data property takes the value when
  it is writable; an inherited data property lets the object get an own property of that
  key when it is writable and the object extensible, as an absent key does when the object
  is extensible; a setter is called; every other case throws a \<open>TypeError\<close>.
\<close>

definition setProp :: "jsrecord \<Rightarrow> jsstring \<Rightarrow> jsval \<Rightarrow> error + jsrecord" where
  "setProp ob key v =
     (case findProp ob key of
        None \<Rightarrow>
          if extensible ob then Inr (ob\<lparr>own := own ob @ [(key, Data v True)]\<rparr>)
          else Inl TypeError
      | Some (isOwn, Data w writable) \<Rightarrow>
          if isOwn then
            if writable then Inr (ob\<lparr>own := replaceProp (own ob) key (Data v True)\<rparr>)
            else Inl TypeError
          else
            if writable \<and> extensible ob then Inr (ob\<lparr>own := own ob @ [(key, Data v True)]\<rparr>)
            else Inl TypeError
      | Some (isOwn, Accessor g s) \<Rightarrow>
          (case s v of
             Inl err \<Rightarrow> Inl err
           | Inr p \<Rightarrow>
               if isOwn then Inr (ob\<lparr>own := replaceProp (own ob) key p\<rparr>)
               else Inr (ob\<lparr>inherited := replaceProp (inherited ob) key p\<rparr>)))"

text \<open>
  Objects live in a heap, from a reference to the object. The loop of \<open>markAsDouble\<close>
  returns the heap as it leaves it, and the exception that ended it, if any: the
  assignments made before an exception stay.
\<close>

type_synonym ref = nat
type_synonym heap = "ref \<Rightarrow> jsrecord"

fun markAsDouble_loop :: "heap \<Rightarrow> ref \<Rightarrow> jsstring list \<Rightarrow> heap \<times> error option" where
  "markAsDouble_loop h obj [] = (h, None)"
| "markAsDouble_loop h obj (key # keys) =
     (case getProp (h obj) key of
        Inl err \<Rightarrow> (h, Some err)
      | Inr value \<Rightarrow>
          if typeof value = TNumber then
            (case Double value of
               Inl err \<Rightarrow> (h, Some err)
             | Inr d \<Rightarrow>
                 (case setProp (h obj) key d of
                    Inl err \<Rightarrow> (h, Some err)
                  | Inr ob \<Rightarrow> markAsDouble_loop (h(obj := ob)) obj keys))
          else markAsDouble_loop h obj keys)"

text \<open>\<open>markAsDouble(obj, ...keys)\<close>: the heap it leaves, and the exception or \<open>obj\<close>.\<close>

definition markAsDouble :: "heap \<Rightarrow> ref \<Rightarrow> jsstring list \<Rightarrow> heap \<times> (error + ref)" where
  "markAsDouble h obj keys =
     (case markAsDouble_loop h obj keys of
        (h', Some err) \<Rightarrow> (h', Inl err)
      | (h', None) \<Rightarrow> (h', Inr obj))"

section \<open>Whitespace and string literals of a text\<close>

text \<open>
  The notions the properties of the pretty printer are stated with; they are not
  functions of the source. The whitespace of JSON texts (RFC 8259) is space, tab, line feed
  and carriage return.
\<close>

definition isWhitespace :: "jschar \<Rightarrow> bool" where
  "isWhitespace c = (c = SPACE \<or> c = 0x09 \<or> c = NEWLINE \<or> c = 0x0D)"

text \<open>
  Removal of all whitespace outside string literals. A literal runs from a \<open>"\<close> to the next
  \<open>"\<close> that no backslash escapes; the flag says whether the text starts inside one.
\<close>

fun stripFrom :: "bool \<Rightarrow> jsstring \<Rightarrow> jsstring" where
  "stripFrom inString [] = []"
| "stripFrom True (c # cs) =
     (if c = BACKSLASH then
        (case cs of [] \<Rightarrow> [c] | x # cs' \<Rightarrow> c # x # stripFrom True cs')
      else if c = DQUOTE then c # stripFrom False cs
      else c # stripFrom True cs)"
| "stripFrom False (c # cs) =
     (if c = DQUOTE then c # stripFrom True cs
      else if isWhitespace c then stripFrom False cs
      else c # stripFrom False cs)"

definition stripWhitespace :: "jsstring \<Rightarrow> jsstring" where
  "stripWhitespace t = stripFrom False t"

text \<open>
  For every character of a text, whether it lies inside a string literal (the two quotes
  of the literal included).
\<close>

fun literalMask :: "bool \<Rightarrow> jsstring \<Rightarrow> bool list" where
  "literalMask inString [] = []"
| "literalMask True (c # cs) =
     (if c = BACKSLASH then
        (case cs of [] \<Rightarrow> [True] | x # cs' \<Rightarrow> True # True # literalMask True cs')
      else if c = DQUOTE then True # literalMask False cs
      else True # literalMask True cs)"
| "literalMask False (c # cs) =
     (if c = DQUOTE then True # literalMask True cs
      else False # literalMask False cs)"

text \<open>
  The string literals of a text, in order, each with its two quotes; a literal that the end
  of the text cuts short counts as it stands.
\<close>

fun pushChar :: "jschar \<Rightarrow> jsstring list \<Rightarrow> jsstring list" where
  "pushChar c [] = [[c]]"
| "pushChar c (l # ls) = (c # l) # ls"

fun literalsFrom :: "bool \<Rightarrow> jsstring \<Rightarrow> jsstring list" where
  "literalsFrom inString [] = (if inString then [[]] else [])"
| "literalsFrom True (c # cs) =
     (if c = BACKSLASH then
        (case cs of [] \<Rightarrow> [[c]] | x # cs' \<Rightarrow> pushChar c (pushChar x (literalsFrom True cs')))
      else if c = DQUOTE then [c] # literalsFrom False cs
      else pushChar c (literalsFrom True cs))"
| "literalsFrom False (c # cs) =
     (if c = DQUOTE then pushChar c (literalsFrom True cs)
      else literalsFrom False cs)"

definition literals :: "jsstring \<Rightarrow> jsstring list" where
  "literals t = literalsFrom False t"

section \<open>The scan of the pretty printer, character by character\<close>

text \<open>
  For the proofs, the loop of \<open>prettyPrint\<close> once more, as a recursion over the rest of
  the text with the previous character at hand; it returns, for every character read, the
  piece of output pushed for it. Lemma \<open>prettyPrint_loop_scan\<close> shows that the loop
  returns the pieces of the scan, joined.
\<close>

definition emit :: "jsstring \<Rightarrow> error + jsstring list \<Rightarrow> error + jsstring list" where
  "emit piece r = (case r of Inl err \<Rightarrow> Inl err | Inr pieces \<Rightarrow> Inr (piece # pieces))"

definition nextChar :: "jsstring \<Rightarrow> jschar option" where
  "nextChar cs = (case cs of [] \<Rightarrow> None | x # xs \<Rightarrow> Some x)"

fun scan :: "jsstring \<Rightarrow> jschar option \<Rightarrow> jsstring \<Rightarrow> int \<Rightarrow> bool \<Rightarrow> error + jsstring list" where
  "scan indent prev [] depth inString = Inr []"
| "scan indent prev (c # cs) depth True =
     (if c = BACKSLASH then
        (case cs of
           [] \<Rightarrow> Inr [[c]]
         | x # cs' \<Rightarrow> emit [c] (emit [x] (scan indent (Some x) cs' depth True)))
      else if c = DQUOTE then emit [c] (scan indent (Some c) cs depth False)
      else emit [c] (scan indent (Some c) cs depth True))"
| "scan indent prev (c # cs) depth False =
     (if c = DQUOTE then emit [c] (scan indent (Some c) cs depth True)
      else if c = LBRACE \<or> c = LBRACKET then
        (if nextChar cs \<noteq> Some RBRACE \<and> nextChar cs \<noteq> Some RBRACKET then
           (case repeat_int indent (depth + 1) of
              Inl err \<Rightarrow> Inl err
            | Inr ind \<Rightarrow> emit ([c] @ [NEWLINE] @ ind) (scan indent (Some c) cs (depth + 1) False))
         else emit [c] (scan indent (Some c) cs depth False))
      else if c = RBRACE \<or> c = RBRACKET then
        (if prev \<noteq> Some LBRACE \<and> prev \<noteq> Some LBRACKET then
           (case repeat_int indent (depth - 1) of
              Inl err \<Rightarrow> Inl err
            | Inr ind \<Rightarrow> emit ([NEWLINE] @ ind @ [c]) (scan indent (Some c) cs (depth - 1) False))
         else emit [c] (scan indent (Some c) cs depth False))
      else if c = COMMA then
        (case repeat_int indent depth of
           Inl err \<Rightarrow> Inl err
         | Inr ind \<Rightarrow> emit ([COMMA, NEWLINE] @ ind) (scan indent (Some c) cs depth False))
      else if c = COLON then emit [COLON, SPACE] (scan indent (Some c) cs depth False)
      else emit [c] (scan indent (Some c) cs depth False))"

definition joined :: "jsstring \<Rightarrow> error + jsstring list \<Rightarrow> error + jsstring" where
  "joined result r = (case r of Inl err \<Rightarrow> Inl err | Inr pieces \<Rightarrow> Inr (result @ concat pieces))"

text \<open>Every character inside a literal is pushed as it is, with nothing added.\<close>

fun verbatim :: "bool list \<Rightarrow> jsstring \<Rightarrow> jsstring list \<Rightarrow> bool" where
  "verbatim [] [] [] = True"
| "verbatim (m # ms) (c # cs) (p # ps) = ((m \<longrightarrow> p = [c]) \<and> verbatim ms cs ps)"
| "verbatim ms cs ps = False"

definition lastOr :: "jschar option \<Rightarrow> jsstring \<Rightarrow> jschar option" where
  "lastOr prev t = (if t = [] then prev else Some (last t))"

text \<open>
  A segment is a piece of text that the scan, entered outside a literal at a depth that is
  not negative, leaves outside a literal at the same depth, whatever follows; that has no
  whitespace outside literals; and that neither starts with a closing nor ends with an
  opening bracket.
\<close>

definition segment :: "jsstring \<Rightarrow> bool" where
  "segment t \<longleftrightarrow>
     (\<forall>rest. stripFrom False (t @ rest) = t @ stripFrom False rest)
     \<and> (\<forall>indent prev rest depth. 0 \<le> depth \<longrightarrow>
          isl (scan indent prev (t @ rest) depth False)
          = isl (scan indent (lastOr prev t) rest depth False))
     \<and> (t \<noteq> [] \<longrightarrow> hd t \<noteq> RBRACE \<and> hd t \<noteq> RBRACKET \<and> last t \<noteq> LBRACE \<and> last t \<noteq> LBRACKET)"

text \<open>The body of a literal: no \<open>"\<close> but after a backslash, and no backslash at its end.\<close>

fun stringBody :: "jsstring \<Rightarrow> bool" where
  "stringBody [] = True"
| "stringBody (c # cs) =
     (if c = BACKSLASH then (case cs of [] \<Rightarrow> False | x # cs' \<Rightarrow> stringBody cs')
      else c \<noteq> DQUOTE \<and> stringBody cs)"

definition plainChar :: "jschar \<Rightarrow> bool" where
  "plainChar c \<longleftrightarrow>
     c \<noteq> DQUOTE \<and> c \<noteq> BACKSLASH \<and> c \<noteq> LBRACE \<and> c \<noteq> LBRACKET \<and> c \<noteq> RBRACE \<and> c \<noteq> RBRACKET
     \<and> c \<noteq> COMMA \<and> c \<noteq> COLON \<and> \<not> isWhitespace c"

definition bodyChar :: "jschar \<Rightarrow> bool" where
  "bodyChar c \<longleftrightarrow> c \<noteq> DQUOTE \<and> c \<noteq> BACKSLASH"


section \<open>Values that print as the built-in methods do\<close>

text \<open>
  The properties of the pretty printer hold of the texts of these values, in which every
  object (the value itself, and on through the results of \<open>toJSON\<close>, the elements of
  arrays and the values of properties) satisfies three conditions: where the object is
  marked, \<open>valueOf()\<close> does not return a value that is no number; where it is a Date,
  the text of \<open>toISOString()\<close> has no \<open>"\<close> and no backslash, as the text of the built-in
  method has none; and where it is an array, \<open>map\<close> and \<open>join\<close> are the built-in ones.
\<close>

fun numberMarked :: "marking \<Rightarrow> bool" where
  "numberMarked (Marked (Inr (NonNumeric finiteness numText))) = False"
| "numberMarked m = True"

fun plainDate :: "dating \<Rightarrow> bool" where
  "plainDate (IsDate (Inr isoText)) = list_all bodyChar isoText"
| "plainDate d = True"

function (sequential) regular :: "jsval \<Rightarrow> bool" where
  "regular (VObject ob) =
     (numberMarked (marking ob) \<and> plainDate (dating ob)
      \<and> (case conversion ob of
            ToJSON result \<Rightarrow> (case result of Inl err \<Rightarrow> True | Inr r \<Rightarrow> regular r)
          | NoToJSON \<Rightarrow> True
          | ToJSONThrows err \<Rightarrow> True)
      \<and> (case content ob of
            ArrayItems elems \<Rightarrow>
              list_all (\<lambda>item. case item of
                                None \<Rightarrow> True
                              | Some (Inl err) \<Rightarrow> True
                              | Some (Inr v) \<Rightarrow> regular v) elems
          | ArrayJoined joinedText \<Rightarrow> False
          | Properties keys \<Rightarrow>
              (case keys of
                 Inl err \<Rightarrow> True
               | Inr ps \<Rightarrow> list_all (\<lambda>(key, r). case r of Inl err \<Rightarrow> True | Inr v \<Rightarrow> regular v) ps)))"
| "regular v = True"
  by pat_completeness auto
termination
  by (relation "measure size") (auto dest: size_toJSON size_items size_properties)

section \<open>Objects of the examples\<close>

text \<open>
  \<open>{...Double(5)}\<close>: the spread copies the marker, an enumerable property, to a plain
  object, whose \<open>valueOf()\<close> returns the object itself: \<open>isFinite\<close> of it is \<open>false\<close>
  and \<open>String\<close> of it is \<open>[object Object]\<close>.
\<close>

definition spreadOfDouble :: jsval where
  "spreadOfDouble =
     VObject (JSObject None (Marked (Inr (NonNumeric (Inr False) (Inr (str ''[object Object]'')))))
       NotDate NoToJSON (Properties (Inr [])))"



text \<open>
  A Date with a \<open>toISOString\<close> of its own, an own property or a method of a subclass, that
  returns the given text; \<open>Date.prototype.toJSON\<close> calls that method.
\<close>

definition dateWithText :: "jsstring \<Rightarrow> jsval" where
  "dateWithText isoText =
     VObject (JSObject None Unmarked (IsDate (Inr isoText)) (ToJSON (Inr (VString isoText)))
       (Properties (Inr [])))"

text \<open>
  A marked object whose \<open>valueOf()\<close> returns an object that converts to a finite number
  and to the given string (\<open>{ valueOf: () => 1, toString: () => text }\<close>), and an array
  whose \<open>join\<close> is replaced by a function that returns the given string.
\<close>

definition markedWithText :: "jsstring \<Rightarrow> jsval" where
  "markedWithText numText =
     VObject (JSObject None (Marked (Inr (NonNumeric (Inr True) (Inr numText)))) NotDate NoToJSON
       (Properties (Inr [])))"

definition arrayJoinedAs :: "jsstring \<Rightarrow> jsval" where
  "arrayJoinedAs joinedText =
     VObject (JSObject None Unmarked NotDate NoToJSON (ArrayJoined (Inr joinedText)))"

text \<open>
  \<open>Object.freeze({ a: 1 })\<close>: the property is not writable and the object not extensible.
\<close>

definition frozenRecord :: jsrecord where
  "frozenRecord =
     \<lparr>own = [(str ''a'', Data (VNumber (Finite False 1 0)) False)], inherited = [],
      extensible = False\<rparr>"

text \<open>
  An object with the accessor property
  \<open>get a() { return n < 3 ? n : last }\<close>, \<open>set a(v) { n++; last = v }\<close>
  over the variables \<open>n = 1\<close> and \<open>last\<close> of a closure: the property reads \<open>1\<close>, after
  one assignment \<open>2\<close>, and from the second assignment on the value assigned last, as a
  writable data property does.
\<close>

definition countingRecord :: jsrecord where
  "countingRecord =
     \<lparr>own = [(str ''a'',
               Accessor (Inr (VNumber (Finite False 1 0)))
                 (\<lambda>v. Inr (Accessor (Inr (VNumber (Finite False 2 0)))
                              (\<lambda>last. Inr (Data last True)))))],
      inherited = [], extensible = True\<rparr>"

section \<open>Notions of marking\<close>


text \<open>
  A value is a wrapper as \<open>Double\<close> returns it when it is what \<open>Double\<close> returns for the
  number that its \<open>valueOf()\<close> gives.
\<close>

definition isWrapper :: "jsval \<Rightarrow> bool" where
  "isWrapper v =
     (case v of
        VObject ob \<Rightarrow>
          (case marking ob of
             Marked r \<Rightarrow>
               (case r of
                  Inr (Numeric n) \<Rightarrow> Double (VNumber n) = Inr v
                | Inr (NonNumeric finiteness numText) \<Rightarrow> False
                | Inl err \<Rightarrow> False)
           | Unmarked \<Rightarrow> False
           | MarkerThrows err \<Rightarrow> False)
      | _ \<Rightarrow> False)"

text \<open>
  A key is a data key of an object when \<open>obj[key]\<close> finds a data property or nothing, and
  assignable when, in addition, a number that it holds can be replaced: the property is
  writable, and it is the object's own or the object is extensible. These are the two
  notions that the properties of \<open>markAsDouble\<close> are stated with.
\<close>

definition dataKey :: "jsrecord \<Rightarrow> jsstring \<Rightarrow> bool" where
  "dataKey ob key =
     (case findProp ob key of
        None \<Rightarrow> True
      | Some (isOwn, Data v writable) \<Rightarrow> True
      | Some (isOwn, Accessor g s) \<Rightarrow> False)"


section \<open>Properties of the marker\<close>

lemma isDoubleNumber_marking:
  "isDoubleNumber (VObject ob) =
     (case marking ob of
        Unmarked \<Rightarrow> Inr False
      | Marked r \<Rightarrow> Inr True
      | MarkerThrows err \<Rightarrow> Inl err)"
  by (simp add: get_DOUBLE_MARKER_def split: marking.splits)

lemma isWrapper_iff: "isWrapper v \<longleftrightarrow> (\<exists>n. Double (VNumber n) = Inr v)"
proof
  assume "isWrapper v"
  then show "\<exists>n. Double (VNumber n) = Inr v"
    by (auto simp: isWrapper_def split: jsval.splits marking.splits sum.splits numeric.splits)
next
  assume "\<exists>n. Double (VNumber n) = Inr v"
  then obtain n where "Double (VNumber n) = Inr v" ..
  then show "isWrapper v"
    by (auto simp: isWrapper_def)
qed



section \<open>Properties of the encoder\<close>



text \<open>
  The number's text is in exponent notation from 22 digits on, and the marked text with it:
  \<open>Double(1e21)\<close> gives \<open>1e+21.0\<close>.
\<close>

lemma serializeValue_Double_exponent:
  "serializeValue (VObject (JSObject (Some (Finite False 1 21)) (Marked (Inr (Numeric (Finite False 1 21)))) NotDate NoToJSON
       (Properties (Inr [])))) = Inr (Some (str ''1e+21.0''))"
  by (simp add: get_DOUBLE_MARKER_def serializeDouble_def positiveToString_def
      strip_zeros.simps digits.simps digit_def str_def)

text \<open>
  Where \<open>valueOf()\<close> returns a value that is no number, the text is \<open>null\<close> or
  \<open>String\<close> of that value: the spread copy of a wrapper prints \<open>null\<close>.
\<close>

lemma serializeValue_marked_other:
  "serializeValue spreadOfDouble = Inr (Some (str ''null''))"
  "serializeValue (VObject (JSObject nd (Marked (Inr (NonNumeric (Inr True) (Inr s)))) d c x)) = Inr (Some s)"
  by (simp_all add: spreadOfDouble_def get_DOUBLE_MARKER_def serializeDouble_def str_def)

lemma sequence_map_all:
  "\<forall>x \<in> set xs. f x = Inr (g x) \<Longrightarrow> sequence (map f xs) = Inr (map g xs)"
  by (induction xs) simp_all

text \<open>
  An array literal without elisions, none of whose elements throws, has one text per
  position: \<open>null\<close> where the element gives \<open>undefined\<close>.
\<close>

lemma serializeValue_dense_array:
  assumes "\<forall>v \<in> set vs. \<exists>r. serializeValue v = Inr r"
  shows "serializeValue (arrayLiteral (map Some vs)) =
     Inr (Some ([LBRACKET]
       @ join [COMMA] (map (\<lambda>v. case serializeValue v of Inr (Some t) \<Rightarrow> t | _ \<Rightarrow> str ''null'') vs)
       @ [RBRACKET]))"
proof -
  let ?f = "\<lambda>item. case item of None \<Rightarrow> Inr None
                  | Some (Inl err) \<Rightarrow> Inl err
                  | Some (Inr v) \<Rightarrow> map_sum id Some (orNull (serializeValue v))"
  let ?F = "\<lambda>v. map_sum id Some (orNull (serializeValue v))"
  let ?g = "\<lambda>v. case serializeValue v of Inr (Some t) \<Rightarrow> t | _ \<Rightarrow> str ''null''"
  have e: "map ?f (map (map_option Inr) (map Some vs)) = map ?F vs"
    by simp
  have "\<forall>v \<in> set vs. ?F v = Inr (Some (?g v))"
    using assms by (auto simp: orNull_def split: option.splits)
  then have s: "sequence (map ?F vs) = Inr (map (\<lambda>v. Some (?g v)) vs)"
    by (rule sequence_map_all)
  have j: "joinItems (map (\<lambda>v. Some (?g v)) vs) = join [COMMA] (map ?g vs)"
    by (simp add: joinItems_def comp_def)
  show ?thesis
    unfolding arrayLiteral_def
    by (simp add: get_DOUBLE_MARKER_def arrayText_def e s j del: map_map)
qed

text \<open>
  An object literal, none of whose values throws, keeps the pairs of the keys whose value
  has a text, in order, and drops the others.
\<close>

lemma serializeValue_plain_object:
  assumes "\<forall>(key, v) \<in> set ps. \<exists>r. serializeValue v = Inr r"
  shows "serializeValue (objectLiteral ps) =
     Inr (Some ([LBRACE]
       @ join [COMMA]
           (map (\<lambda>(key, v). [DQUOTE] @ escapeString key @ [DQUOTE] @ [COLON]
                   @ (case serializeValue v of Inr (Some t) \<Rightarrow> t | _ \<Rightarrow> []))
              (filter (\<lambda>(key, v). serializeValue v \<noteq> Inr None) ps))
       @ [RBRACE]))"
proof -
  let ?f = "\<lambda>(key, r). case r of Inl err \<Rightarrow> Inl err | Inr v \<Rightarrow> pairOf key (serializeValue v)"
  let ?F = "\<lambda>(key, v). pairOf key (serializeValue v)"
  let ?p = "\<lambda>(key, v). [DQUOTE] @ escapeString key @ [DQUOTE] @ [COLON]
                   @ (case serializeValue v of Inr (Some t) \<Rightarrow> t | _ \<Rightarrow> [])"
  let ?g = "\<lambda>(key, v). if serializeValue v = Inr None then None else Some (?p (key, v))"
  have e: "map ?f (map (\<lambda>(key, v). (key, Inr v)) ps) = map ?F ps"
    by (simp add: case_prod_beta)
  have "\<forall>x \<in> set ps. ?F x = Inr (?g x)"
    using assms by (auto simp: pairOf_def split: option.splits)
  then have s: "sequence (map ?F ps) = Inr (map ?g ps)"
    by (rule sequence_map_all)
  have m: "List.map_filter id (map ?g qs) = map ?p (filter (\<lambda>(key, v). serializeValue v \<noteq> Inr None) qs)" for qs
    by (induction qs) (auto simp: List.map_filter_simps)
  show ?thesis
    unfolding objectLiteral_def
    by (simp add: get_DOUBLE_MARKER_def objectText_def e s m del: map_map)
qed

text \<open>
  C5, at a sparse array. \<open>Array.prototype.map\<close> skips the holes of an array and \<open>join\<close>
  renders a hole as the empty string, so \<open>[1, , 3]\<close> is serialized as \<open>[1,,3]\<close>: the
  position of the hole gets no element, where \<open>[1, undefined, 3]\<close> gets \<open>null\<close>. An
  object drops the key whose value is \<open>undefined\<close>.
\<close>

theorem serializeValue_sparse_array:
  "serializeValue (arrayLiteral [Some (VNumber (Finite False 1 0)), None,
       Some (VNumber (Finite False 3 0))]) = Inr (Some (str ''[1,,3]''))
   \<and> serializeValue (arrayLiteral [Some (VNumber (Finite False 1 0)), Some VUndefined,
       Some (VNumber (Finite False 3 0))]) = Inr (Some (str ''[1,null,3]''))
   \<and> serializeValue (objectLiteral [(str ''a'', VNumber (Finite False 1 0)),
       (str ''b'', VUndefined), (str ''c'', VNumber (Finite False 3 0))])
     = Inr (Some (str ''{'' @ [DQUOTE] @ str ''a'' @ [DQUOTE] @ str '':1,''
                  @ [DQUOTE] @ str ''c'' @ [DQUOTE] @ str '':3}''))"
  by (simp add: arrayLiteral_def objectLiteral_def get_DOUBLE_MARKER_def arrayText_def
      objectText_def pairOf_def orNull_def
      joinItems_def List.map_filter_simps escapeString_def escapeChar_def
      positiveToString_def strip_zeros.simps digits.simps digit_def str_def)

text \<open>
  C6. When \<open>serializeValue\<close> returns \<open>undefined\<close>, as it does for \<open>undefined\<close>, a
  function and a symbol, \<open>stringify\<close> returns \<open>undefined\<close> whatever the other arguments
  are, and it returns \<open>undefined\<close> in no other case; that result is no string, while
  \<open>stringify(null)\<close> is the string \<open>null\<close>.
\<close>

theorem stringify_not_serializable:
  "(serializeValue v = Inr None \<longrightarrow> stringify v r sp = Inr None)
   \<and> (stringify v r sp = Inr None \<longrightarrow> serializeValue v = Inr None)
   \<and> serializeValue VUndefined = Inr None
   \<and> serializeValue VFunction = Inr None
   \<and> serializeValue VSymbol = Inr None
   \<and> stringify VNull r SpaceUndefined = Inr (Some (str ''null''))
   \<and> (Inr None :: serialized) \<noteq> Inr (Some t)"
proof -
  have "map_sum id Some x \<noteq> Inr None" for x :: "error + jsstring"
    by (cases x) simp_all
  then show ?thesis
    by (auto simp: stringify_def split: sum.splits option.splits if_splits)
qed

theorem stringify_not_serializable_witness:
  "serializeValue VUndefined = Inr None
   \<and> stringify VUndefined () (SpaceNumber (Finite False 2 0)) = Inr None"
  using stringify_not_serializable [of VUndefined "()" "SpaceNumber (Finite False 2 0)"]
  by simp

lemma concat_replicate_single: "concat (replicate n [x]) = replicate n x"
  by (induction n) simp_all

lemma div_pow_bounds:
  fixes s :: int and p :: int
  assumes "0 < p" "0 \<le> s"
  shows "10 * p < s \<Longrightarrow> 10 \<le> s div p" and "\<not> 10 * p < s \<Longrightarrow> s div p \<le> 10"
proof -
  show "10 \<le> s div p" if "10 * p < s"
  proof -
    have "10 * p div p \<le> s div p"
      using that assms by (intro zdiv_mono1) simp_all
    with assms show ?thesis by simp
  qed
  show "s div p \<le> 10" if "\<not> 10 * p < s"
  proof -
    have "s div p \<le> 10 * p div p"
      using that assms by (intro zdiv_mono1) simp_all
    with assms show ?thesis by simp
  qed
qed

text \<open>
  The indent of a numeric \<open>space\<close>: a count that is not negative becomes that many spaces,
  fractions cut off, at most ten; a negative count gives the empty indent when it is above
  \<open>-1\<close> and a \<open>RangeError\<close> otherwise.
\<close>

lemma indentOf_count:
  "indentOf (SpaceNumber (Finite False s e)) =
     Inr (replicate (nat (min (if 0 \<le> e then int s * 10 ^ nat e else int s div 10 ^ nat (- e)) 10)) SPACE)"
proof (cases "0 \<le> e")
  case True
  have "0 \<le> int s * 10 ^ nat e" by simp
  with True show ?thesis
    by (simp add: Math_min_def repeat_int_def concat_replicate_single min_def not_less)
next
  case False
  have p: "(0::int) < 10 ^ nat (- e)" by simp
  have "0 \<le> int s div 10 ^ nat (- e)"
    by (simp add: pos_imp_zdiv_nonneg_iff)
  with div_pow_bounds [OF p, of "int s"] False show ?thesis
    by (auto simp: Math_min_def repeat_int_def concat_replicate_single min_def)
qed

lemma indentOf_Infinity:
  "indentOf (SpaceNumber (Infinity False)) = Inr (replicate 10 SPACE)"
  by (simp add: Math_min_def repeat_int_def concat_replicate_single)

lemma indentOf_negative:
  "indentOf (SpaceNumber (Infinity True)) = Inl RangeError"
  "indentOf (SpaceNumber (Finite True s e)) =
     (if (if 0 \<le> e then int s * 10 ^ nat e else int s div 10 ^ nat (- e)) = 0 then Inr []
      else Inl RangeError)"
proof -
  show "indentOf (SpaceNumber (Infinity True)) = Inl RangeError"
    by (simp add: Math_min_def)
  have a: "0 \<le> int s * 10 ^ nat (e - min 0 e)" by simp
  have b: "(0::int) < 10 * 10 ^ nat (- min 0 e)" by simp
  have "\<not> 10 * 10 ^ nat (- min 0 e) < - (int s * 10 ^ nat (e - min 0 e))"
    using a b by linarith
  then have nl: "\<not> num_less (Finite False 10 0) (Finite True s e)"
    by simp
  have m: "0 \<le> (if 0 \<le> e then int s * 10 ^ nat e else int s div 10 ^ nat (- e))"
    by (simp add: pos_imp_zdiv_nonneg_iff)
  show "indentOf (SpaceNumber (Finite True s e)) =
     (if (if 0 \<le> e then int s * 10 ^ nat e else int s div 10 ^ nat (- e)) = 0 then Inr []
      else Inl RangeError)"
    using m nl by (simp add: Math_min_def repeat_int_def Let_def del: num_less.simps) 
qed

lemma stringify_space:
  assumes "serializeValue v = Inr (Some t)"
  shows "falsy sp \<or> indentOf sp = Inr [] \<Longrightarrow> stringify v r sp = Inr (Some t)"
    and "\<not> falsy sp \<Longrightarrow> indentOf sp = Inr indent \<Longrightarrow> indent \<noteq> [] \<Longrightarrow>
         stringify v r sp = map_sum id Some (prettyPrint t indent)"
    and "\<not> falsy sp \<Longrightarrow> indentOf sp = Inl err \<Longrightarrow> stringify v r sp = Inl err"
  using assms by (auto simp: stringify_def)

text \<open>
  C7, at a numeric count of \<open>-1\<close>. \<open>Math.min(space, 10)\<close> caps the count from above
  only: for \<open>space = -1\<close> the call \<open>' '.repeat(-1)\<close> throws a \<open>RangeError\<close>, and
  \<open>stringify\<close> returns no text.
\<close>

theorem stringify_negative_space:
  "serializeValue VNull = Inr (Some (str ''null''))
   \<and> stringify VNull r (SpaceNumber (Finite True 1 0)) = Inl RangeError"
  by (simp add: stringify_def Math_min_def repeat_int_def)

section \<open>Properties of marking fields\<close>

lemma map_of_replaceProp:
  "map_of (replaceProp ps key p) k =
     (if k = key \<and> map_of ps key \<noteq> None then Some p else map_of ps k)"
  by (induction ps) auto


lemma map_of_snoc:
  "map_of (ps @ [(key, p)]) k =
     (case map_of ps k of Some q \<Rightarrow> Some q | None \<Rightarrow> if k = key then Some p else None)"
  by (induction ps) auto

lemma getProp_cong: "findProp ob' k = findProp ob k \<Longrightarrow> getProp ob' k = getProp ob k"
  by (simp add: getProp_def)

lemma findProp_setProp_other:
  "setProp ob key v = Inr ob' \<Longrightarrow> k \<noteq> key \<Longrightarrow> findProp ob' k = findProp ob k"
  by (auto simp: setProp_def findProp_def map_of_replaceProp map_of_snoc
      simp del: map_of_append split: option.splits property.splits if_splits sum.splits)


lemma findProp_setProp_data:
  "dataKey ob key \<Longrightarrow> setProp ob key v = Inr ob' \<Longrightarrow>
   findProp ob' key = Some (True, Data v True) \<and> inherited ob' = inherited ob"
  by (auto simp: dataKey_def setProp_def findProp_def map_of_replaceProp map_of_snoc
      simp del: map_of_append split: option.splits property.splits if_splits sum.splits)

lemma dataKey_getProp: "dataKey ob key \<Longrightarrow> \<exists>w. getProp ob key = Inr w"
  by (auto simp: dataKey_def getProp_def split: option.splits property.splits)



lemma dataKey_setProp:
  assumes "setProp ob key v = Inr ob'" and "dataKey ob key" and "dataKey ob k"
  shows "dataKey ob' k"
proof (cases "k = key")
  case True
  with findProp_setProp_data [OF assms(2) assms(1)] show ?thesis
    by (simp add: dataKey_def)
next
  case False
  with findProp_setProp_other [OF assms(1)] assms(3) show ?thesis
    by (simp add: dataKey_def)
qed


lemma Double_VNumber: "\<exists>w. Double (VNumber n) = Inr (VObject w)"
  by simp

lemma typeof_TNumber: "typeof v = TNumber \<longleftrightarrow> (\<exists>n. v = VNumber n)"
  by (cases v) simp_all


lemma markAsDouble_loop_skip:
  assumes "getProp (h obj) k = Inr v" and "typeof v \<noteq> TNumber"
  shows "markAsDouble_loop h obj (k # keys) = markAsDouble_loop h obj keys"
  using assms by simp





text \<open>
  A key that holds no number is left alone by every round of the loop, whatever the
  properties of the object are.
\<close>

lemma markAsDouble_loop_keeps:
  "markAsDouble_loop h obj keys = (h', e) \<Longrightarrow> getProp (h obj) key = Inr v \<Longrightarrow>
   typeof v \<noteq> TNumber \<Longrightarrow> getProp (h' obj) key = Inr v"
proof (induction keys arbitrary: h)
  case Nil
  then show ?case by simp
next
  case (Cons k keys)
  show ?case
  proof (cases "getProp (h obj) k")
    case (Inl err)
    with Cons.prems show ?thesis by simp
  next
    case (Inr w)
    show ?thesis
    proof (cases "typeof w = TNumber")
      case False
      with Inr Cons.prems(1) have "markAsDouble_loop h obj keys = (h', e)" by simp
      from Cons.IH [OF this Cons.prems(2,3)] show ?thesis .
    next
      case True
      then obtain n where n: "w = VNumber n"
        by (auto simp: typeof_TNumber)
      with Inr Cons.prems(2,3) have ne: "key \<noteq> k" by auto
      obtain d where d: "Double (VNumber n) = Inr d" by simp
      show ?thesis
      proof (cases "setProp (h obj) k d")
        case (Inl err)
        with Inr n d Cons.prems show ?thesis by simp
      next
        case ob: (Inr ob)
        have run: "markAsDouble_loop (h(obj := ob)) obj keys = (h', e)"
          using Inr n d ob Cons.prems(1) by simp
        have "getProp ((h(obj := ob)) obj) key = Inr v"
          using getProp_cong [OF findProp_setProp_other [OF ob ne]] Cons.prems(2) by simp
        from Cons.IH [OF run this Cons.prems(3)] show ?thesis .
      qed
    qed
  qed
qed

text \<open>Where every listed key is a data key, a second run of the loop does nothing.\<close>

lemma markAsDouble_loop_again:
  "\<forall>key \<in> set keys. dataKey (h obj) key \<Longrightarrow> markAsDouble_loop h obj keys = (h', e) \<Longrightarrow>
   markAsDouble_loop h' obj keys = (h', e)"
proof (induction keys arbitrary: h)
  case Nil
  then show ?case by simp
next
  case (Cons k keys)
  from Cons.prems(1) have dk: "dataKey (h obj) k"
    and rest: "\<forall>key \<in> set keys. dataKey (h obj) key"
    by simp_all
  from dataKey_getProp [OF dk] obtain v where v: "getProp (h obj) k = Inr v"
    by blast
  show ?case
  proof (cases "typeof v = TNumber")
    case False
    with v Cons.prems(2) have run: "markAsDouble_loop h obj keys = (h', e)" by simp
    from Cons.IH [OF rest run] have again: "markAsDouble_loop h' obj keys = (h', e)" .
    from markAsDouble_loop_keeps [OF run v False] have "getProp (h' obj) k = Inr v" .
    with False again show ?thesis by simp
  next
    case True
    then obtain n where n: "v = VNumber n"
      by (auto simp: typeof_TNumber)
    obtain w where d: "Double (VNumber n) = Inr (VObject w)"
      using Double_VNumber by blast
    show ?thesis
    proof (cases "setProp (h obj) k (VObject w)")
      case (Inl err)
      with v n d Cons.prems(2) have "h' = h" "e = Some err" by simp_all
      with v n d Inl show ?thesis by simp
    next
      case ob: (Inr ob)
      define h1 where "h1 = h(obj := ob)"
      have h1obj: "h1 obj = ob" by (simp add: h1_def)
      have run: "markAsDouble_loop h1 obj keys = (h', e)"
        using v n d ob Cons.prems(2) by (simp add: h1_def)
      have "\<forall>key \<in> set keys. dataKey (h1 obj) key"
        using rest dataKey_setProp [OF ob dk] by (simp add: h1obj)
      from Cons.IH [OF this run] have again: "markAsDouble_loop h' obj keys = (h', e)" .
      have "getProp (h1 obj) k = Inr (VObject w)"
        using findProp_setProp_data [OF dk ob] by (simp add: getProp_def h1obj)
      from markAsDouble_loop_keeps [OF run this] have "getProp (h' obj) k = Inr (VObject w)"
        by simp
      with again show ?thesis by simp
    qed
  qed
qed

text \<open>After a run that ends without exception, the listed numbers are wrapped.\<close>

lemma markAsDouble_loop_wrapped:
  "\<forall>key \<in> set keys. dataKey (h obj) key \<Longrightarrow> markAsDouble_loop h obj keys = (h', None) \<Longrightarrow>
   key \<in> set keys \<Longrightarrow> getProp (h obj) key = Inr (VNumber n) \<Longrightarrow>
   getProp (h' obj) key = Double (VNumber n)"
proof (induction keys arbitrary: h)
  case Nil
  then show ?case by simp
next
  case (Cons k keys)
  from Cons.prems(1) have dk: "dataKey (h obj) k"
    and rest: "\<forall>key \<in> set keys. dataKey (h obj) key"
    by simp_all
  from dataKey_getProp [OF dk] obtain v where v: "getProp (h obj) k = Inr v"
    by blast
  show ?case
  proof (cases "typeof v = TNumber")
    case False
    with v Cons.prems(2) have run: "markAsDouble_loop h obj keys = (h', None)" by simp
    from False v Cons.prems(3,4) have "key \<in> set keys" by auto
    from Cons.IH [OF rest run this Cons.prems(4)] show ?thesis .
  next
    case True
    then obtain m where m: "v = VNumber m"
      by (auto simp: typeof_TNumber)
    obtain w where d: "Double (VNumber m) = Inr (VObject w)"
      using Double_VNumber by blast
    show ?thesis
    proof (cases "setProp (h obj) k (VObject w)")
      case (Inl err)
      with v m d Cons.prems(2) show ?thesis by simp
    next
      case ob: (Inr ob)
      define h1 where "h1 = h(obj := ob)"
      have h1obj: "h1 obj = ob" by (simp add: h1_def)
      have run: "markAsDouble_loop h1 obj keys = (h', None)"
        using v m d ob Cons.prems(2) by (simp add: h1_def)
      have dks: "\<forall>key \<in> set keys. dataKey (h1 obj) key"
        using rest dataKey_setProp [OF ob dk] by (simp add: h1obj)
      show ?thesis
      proof (cases "key = k")
        case True
        with v m Cons.prems(4) have "n = m" by simp
        have "getProp (h1 obj) k = Inr (VObject w)"
          using findProp_setProp_data [OF dk ob] by (simp add: getProp_def h1obj)
        from markAsDouble_loop_keeps [OF run this] have "getProp (h' obj) k = Inr (VObject w)"
          by simp
        with True d \<open>n = m\<close> show ?thesis by simp
      next
        case False
        with Cons.prems(3) have in_keys: "key \<in> set keys" by simp
        have "getProp (h1 obj) key = Inr (VNumber n)"
          using getProp_cong [OF findProp_setProp_other [OF ob False]] Cons.prems(4)
          by (simp add: h1obj)
        from Cons.IH [OF dks run in_keys this] show ?thesis .
      qed
    qed
  qed
qed

text \<open>
  C10, as the code has it. On the object with the counting accessor the first call assigns
  to a property that reads \<open>1\<close> and leaves it reading \<open>2\<close>, a number again; the second
  call assigns once more and leaves the property reading the wrapper of \<open>2\<close>. The second
  call has changed the object, and the number behind the key is not the one it was.
\<close>

theorem markAsDouble_accessor_counterexample:
  "getProp countingRecord (str ''a'') = Inr (VNumber (Finite False 1 0))
   \<and> snd (markAsDouble (\<lambda>r. countingRecord) 0 [str ''a'']) = Inr 0
   \<and> getProp (fst (markAsDouble (\<lambda>r. countingRecord) 0 [str ''a'']) 0) (str ''a'')
     = Inr (VNumber (Finite False 2 0))
   \<and> getProp (fst (markAsDouble (fst (markAsDouble (\<lambda>r. countingRecord) 0 [str ''a'']))
                       0 [str ''a'']) 0) (str ''a'')
     = Double (VNumber (Finite False 2 0))"
  by (simp add: markAsDouble_def countingRecord_def getProp_def setProp_def findProp_def str_def)

text \<open>
  C10, amended. Let every listed key be a data key: it finds a data property or nothing.
  Then marking the same keys a second time changes nothing: the second call leaves the
  heap that the first call left and ends as the first did, with the object or with the
  same exception. Where the first call returns the object, a listed key that held the number
  \<open>n\<close> reads, after either call, \<open>Double(n)\<close>, the one wrapper that the first call
  built, whose \<open>valueOf()\<close> is \<open>n\<close>.
\<close>

theorem markAsDouble_idempotent:
  "\<forall>key \<in> set keys. dataKey (h obj) key \<Longrightarrow> markAsDouble h obj keys = (h1, out) \<Longrightarrow>
   markAsDouble h1 obj keys = (h1, out)
   \<and> (\<forall>key n. key \<in> set keys \<longrightarrow> getProp (h obj) key = Inr (VNumber n) \<longrightarrow> out = Inr obj \<longrightarrow>
         getProp (h1 obj) key = Double (VNumber n)
         \<and> (\<exists>w. getProp (h1 obj) key = Inr (VObject w) \<and> valueOf (marking w) = Inr (Numeric n)))"
proof -
  assume dk: "\<forall>key \<in> set keys. dataKey (h obj) key"
    and run: "markAsDouble h obj keys = (h1, out)"
  obtain e where loop: "markAsDouble_loop h obj keys = (h1, e)"
    and out: "out = (case e of Some err \<Rightarrow> Inl err | None \<Rightarrow> Inr obj)"
    using run by (auto simp: markAsDouble_def split: prod.splits option.splits)
  from markAsDouble_loop_again [OF dk loop] have "markAsDouble_loop h1 obj keys = (h1, e)" .
  then have again: "markAsDouble h1 obj keys = (h1, out)"
    using out by (simp add: markAsDouble_def split: option.splits)
  have wrapped: "getProp (h1 obj) key = Double (VNumber n)
         \<and> (\<exists>w. getProp (h1 obj) key = Inr (VObject w) \<and> valueOf (marking w) = Inr (Numeric n))"
    if "key \<in> set keys" "getProp (h obj) key = Inr (VNumber n)" "out = Inr obj" for key n
  proof -
    from that(3) out have "e = None" by (cases e) simp_all
    with loop have "markAsDouble_loop h obj keys = (h1, None)" by simp
    from markAsDouble_loop_wrapped [OF dk this that(1,2)]
    have "getProp (h1 obj) key = Double (VNumber n)" .
    then show ?thesis by simp
  qed
  from again wrapped show ?thesis by blast
qed

theorem markAsDouble_idempotent_witness:
  "dataKey \<lparr>own = [(str ''a'', Data (VNumber (Finite False 1 0)) True)], inherited = [],
            extensible = True\<rparr> (str ''a'')
   \<and> (\<exists>h1. markAsDouble
              (\<lambda>r. \<lparr>own = [(str ''a'', Data (VNumber (Finite False 1 0)) True)], inherited = [],
                     extensible = True\<rparr>) 0 [str ''a'', str ''a''] = (h1, Inr 0)
          \<and> markAsDouble h1 0 [str ''a'', str ''a''] = (h1, Inr 0)
          \<and> getProp (h1 0) (str ''a'') = Double (VNumber (Finite False 1 0)))
   \<and> markAsDouble (\<lambda>r. frozenRecord) 0 [str ''a''] = (\<lambda>r. frozenRecord, Inl TypeError)"
proof -
  let ?ob = "\<lparr>own = [(str ''a'', Data (VNumber (Finite False 1 0)) True)], inherited = [],
            extensible = True\<rparr>"
  let ?keys = "[str ''a'', str ''a'']"
  have d: "dataKey ?ob (str ''a'')"
    by (simp add: dataKey_def findProp_def)
  then have dk: "\<forall>key \<in> set ?keys. dataKey ((\<lambda>r. ?ob) (0::nat)) key"
    by simp
  have g: "getProp ?ob (str ''a'') = Inr (VNumber (Finite False 1 0))"
    by (simp add: getProp_def findProp_def)
  obtain h1 out where run: "markAsDouble (\<lambda>r. ?ob) 0 ?keys = (h1, out)"
    by (cases "markAsDouble (\<lambda>r. ?ob) 0 ?keys") blast
  have out: "out = Inr 0"
    using run by (simp add: markAsDouble_def setProp_def getProp_def findProp_def
        split: prod.splits)
  from markAsDouble_idempotent [OF dk run] have
    again: "markAsDouble h1 0 ?keys = (h1, out)"
    and w: "\<forall>key n. key \<in> set ?keys \<longrightarrow> getProp ?ob key = Inr (VNumber n) \<longrightarrow> out = Inr 0 \<longrightarrow>
         getProp (h1 0) key = Double (VNumber n)
         \<and> (\<exists>w. getProp (h1 0) key = Inr (VObject w) \<and> valueOf (marking w) = Inr (Numeric n))"
    by simp_all
  from w [rule_format, of "str ''a''" "Finite False 1 0"] g out
  have "getProp (h1 0) (str ''a'') = Double (VNumber (Finite False 1 0))" by simp
  moreover have "markAsDouble (\<lambda>r. frozenRecord) 0 [str ''a''] = (\<lambda>r. frozenRecord, Inl TypeError)"
    by (simp add: markAsDouble_def frozenRecord_def getProp_def setProp_def findProp_def)
  ultimately show ?thesis
    using d run again out by blast
qed

section \<open>Properties of the pretty printer\<close>

lemma joined_emit [simp]: "joined result (emit piece r) = joined (result @ piece) r"
  by (simp add: joined_def emit_def split: sum.splits)

lemma joined_Inl [simp]: "joined result (Inl err) = Inl err"
  by (simp add: joined_def)

lemma charAt_drop:
  "charAt json (int i) = nextChar (drop i json)"
  by (cases "i < length json") (auto simp: charAt_def nextChar_def Cons_nth_drop_Suc [symmetric])

lemma prettyPrint_loop_scan:
  "prettyPrint_loop json indent i depth inString result =
     joined result (scan indent (charAt json (int i - 1)) (drop i json) depth inString)"
proof (induction json indent i depth inString result rule: prettyPrint_loop.induct)
  case (1 json indent i depth inString result)
  show ?case
  proof (cases "i < length json")
    case False
    then show ?thesis
      by (simp add: prettyPrint_loop.simps [of json indent i] joined_def)
  next
    case True
    then have d: "drop i json = json ! i # drop (Suc i) json"
      by (simp add: Cons_nth_drop_Suc)
    have nx: "charAt json (int i + 1) = nextChar (drop (Suc i) json)"
      using charAt_drop [of json "Suc i"] by (simp add: add.commute)
    have pv: "charAt json (int (i + 1) - 1) = Some (json ! i)"
      using True by (simp add: charAt_def)
    show ?thesis
    proof (cases inString)
      case inS: True
      show ?thesis
      proof (cases "json ! i = BACKSLASH")
        case bs: True
        show ?thesis
        proof (cases "drop (Suc i) json")
          case Nil
          then have "\<not> i + 2 < length json" "charAt json (int i + 1) = None"
            by (auto simp: charAt_def)
          then show ?thesis
            using True inS bs Nil d
            by (simp add: prettyPrint_loop.simps [of json indent i]
                prettyPrint_loop.simps [of json indent "Suc (Suc i)"] joined_def pushed_def)
        next
          case (Cons x cs')
          then have lt: "Suc i < length json" by (cases "Suc i < length json") auto
          then have x: "json ! Suc i = x" "drop (Suc (Suc i)) json = cs'"
            using Cons by (auto simp: Cons_nth_drop_Suc [symmetric])
          have "nat (1 + int i) = Suc i" by simp
          then have pv2: "charAt json (int (i + 2) - 1) = Some x"
            using lt x by (simp add: charAt_def)
          have cA: "charAt json (int i + 1) = Some x"
            using nx Cons by (simp add: nextChar_def)
          show ?thesis
            using True inS bs d Cons x pv2 cA "1.IH"(1) [OF _ inS bs]
            by (simp add: prettyPrint_loop.simps [of json indent i] pushed_def)
        qed
      next
        case nbs: False
        show ?thesis
          using True inS nbs d pv "1.IH"(2,3)
          by (simp add: prettyPrint_loop.simps [of json indent i])
      qed
    next
      case outS: False
      note unf = prettyPrint_loop.simps [of json indent i]
      consider (cQuote) "json ! i = DQUOTE"
        | (cOpen) "json ! i = LBRACE \<or> json ! i = LBRACKET"
        | (cClose) "json ! i = RBRACE \<or> json ! i = RBRACKET"
        | (cComma) "json ! i = COMMA"
        | (cColon) "json ! i = COLON"
        | (cOther) "json ! i \<noteq> DQUOTE" "json ! i \<noteq> LBRACE" "json ! i \<noteq> LBRACKET"
            "json ! i \<noteq> RBRACE" "json ! i \<noteq> RBRACKET" "json ! i \<noteq> COMMA" "json ! i \<noteq> COLON"
        by blast
      then show ?thesis
      proof cases
        case cQuote
        with True outS d pv "1.IH"(4) show ?thesis
          by (simp add: unf)
      next
        case cOpen
        then have nq: "json ! i \<noteq> DQUOTE" by auto
        show ?thesis
        proof (cases "nextChar (drop (Suc i) json) \<noteq> Some RBRACE
            \<and> nextChar (drop (Suc i) json) \<noteq> Some RBRACKET")
          case nl: True
          show ?thesis
          proof (cases "repeat_int indent (depth + 1)")
            case (Inl err)
            with True outS d nx cOpen nq nl show ?thesis
              by (simp add: unf)
          next
            case (Inr ind)
            with True outS d nx pv cOpen nq nl "1.IH"(5) [of ind] show ?thesis
              by (simp add: unf)
          qed
        next
          case nonl: False
          with True outS d nx pv cOpen nq "1.IH"(6) show ?thesis
            by (auto simp: unf)
        qed
      next
        case cClose
        then have nq: "json ! i \<noteq> DQUOTE" "json ! i \<noteq> LBRACE" "json ! i \<noteq> LBRACKET"
          by auto
        show ?thesis
        proof (cases "charAt json (int i - 1) \<noteq> Some LBRACE
            \<and> charAt json (int i - 1) \<noteq> Some LBRACKET")
          case nl: True
          show ?thesis
          proof (cases "repeat_int indent (depth - 1)")
            case (Inl err)
            with True outS d cClose nq nl show ?thesis
              by (simp add: unf)
          next
            case (Inr ind)
            with True outS d pv cClose nq nl "1.IH"(7) [of ind] show ?thesis
              by (simp add: unf)
          qed
        next
          case nonl: False
          with True outS d pv cClose nq "1.IH"(8) show ?thesis
            by (auto simp: unf)
        qed
      next
        case cComma
        show ?thesis
        proof (cases "repeat_int indent depth")
          case (Inl err)
          with True outS d cComma show ?thesis
            by (simp add: unf)
        next
          case (Inr ind)
          with True outS d pv cComma "1.IH"(9) [of ind] show ?thesis
            by (simp add: unf)
        qed
      next
        case cColon
        with True outS d pv "1.IH"(10) show ?thesis
          by (simp add: unf)
      next
        case cOther
        with True outS d pv "1.IH"(11) show ?thesis
          by (simp add: unf)
      qed
    qed
  qed
qed

lemma prettyPrint_scan:
  "prettyPrint json indent = joined [] (scan indent None json 0 False)"
  by (simp add: prettyPrint_def prettyPrint_loop_scan charAt_def)

lemma emit_Inr: "emit p r = Inr ps \<longleftrightarrow> (\<exists>qs. r = Inr qs \<and> ps = p # qs)"
  by (auto simp: emit_def split: sum.splits)

lemma stripFrom_whitespace:
  "\<forall>c \<in> set w. isWhitespace c \<Longrightarrow> stripFrom False (w @ xs) = stripFrom False xs"
  by (induction w) (auto simp: isWhitespace_def)

lemma repeat_int_whitespace:
  "\<forall>c \<in> set indent. isWhitespace c \<Longrightarrow> repeat_int indent n = Inr s \<Longrightarrow>
   \<forall>c \<in> set s. isWhitespace c"
  by (auto simp: repeat_int_def split: if_splits)

lemma structural_not_whitespace:
  "\<not> isWhitespace LBRACE" "\<not> isWhitespace LBRACKET" "\<not> isWhitespace RBRACE"
  "\<not> isWhitespace RBRACKET" "\<not> isWhitespace COMMA" "\<not> isWhitespace COLON"
  "isWhitespace NEWLINE" "isWhitespace SPACE"
  by (simp_all add: isWhitespace_def)

lemma scan_strip:
  "\<forall>c \<in> set indent. isWhitespace c \<Longrightarrow> scan indent prev cs depth inString = Inr pieces \<Longrightarrow>
   stripFrom inString (concat pieces) = stripFrom inString cs"
proof (induction indent prev cs depth inString arbitrary: pieces rule: scan.induct)
  case (1 indent prev depth inString)
  then show ?case by simp
next
  case (2 indent prev c cs depth)
  then show ?case
    by (auto simp: emit_Inr split: if_splits list.splits)
next
  case (3 indent prev c cs depth)
  have ws: "stripFrom False (w @ xs) = stripFrom False xs"
    if "repeat_int indent n = Inr w" for w xs n
    using stripFrom_whitespace repeat_int_whitespace [OF "3.prems"(1) that] by blast
  consider (cQuote) "c = DQUOTE"
    | (cOpen) "c = LBRACE \<or> c = LBRACKET"
    | (cClose) "c = RBRACE \<or> c = RBRACKET"
    | (cComma) "c = COMMA"
    | (cColon) "c = COLON"
    | (cOther) "c \<noteq> DQUOTE" "c \<noteq> LBRACE" "c \<noteq> LBRACKET"
        "c \<noteq> RBRACE" "c \<noteq> RBRACKET" "c \<noteq> COMMA" "c \<noteq> COLON"
    by blast
  then show ?case
  proof cases
    case cQuote
    with "3.prems" "3.IH"(1) show ?thesis
      by (auto simp: emit_Inr)
  next
    case cOpen
    with "3.prems" "3.IH"(2,3) show ?thesis
      by (auto simp: emit_Inr structural_not_whitespace ws split: if_splits sum.splits)
  next
    case cClose
    with "3.prems" "3.IH"(4,5) show ?thesis
      by (auto simp: emit_Inr structural_not_whitespace ws split: if_splits sum.splits)
  next
    case cComma
    with "3.prems" "3.IH"(6) show ?thesis
      by (auto simp: emit_Inr structural_not_whitespace ws split: if_splits sum.splits)
  next
    case cColon
    with "3.prems" "3.IH"(7) show ?thesis
      by (auto simp: emit_Inr structural_not_whitespace split: if_splits sum.splits)
  next
    case cOther
    with "3.prems" "3.IH"(8) show ?thesis
      by (auto simp: emit_Inr)
  qed
qed

lemma scan_verbatim:
  "scan indent prev cs depth inString = Inr pieces \<Longrightarrow>
   verbatim (literalMask inString cs) cs pieces"
proof (induction indent prev cs depth inString arbitrary: pieces rule: scan.induct)
  case (1 indent prev depth inString)
  then show ?case by simp
next
  case (2 indent prev c cs depth)
  then show ?case
    by (auto simp: emit_Inr split: if_splits list.splits)
next
  case (3 indent prev c cs depth)
  consider (cQuote) "c = DQUOTE"
    | (cOpen) "c = LBRACE \<or> c = LBRACKET"
    | (cClose) "c = RBRACE \<or> c = RBRACKET"
    | (cComma) "c = COMMA"
    | (cColon) "c = COLON"
    | (cOther) "c \<noteq> DQUOTE" "c \<noteq> LBRACE" "c \<noteq> LBRACKET"
        "c \<noteq> RBRACE" "c \<noteq> RBRACKET" "c \<noteq> COMMA" "c \<noteq> COLON"
    by blast
  then show ?case
  proof cases
    case cQuote
    with "3.prems" "3.IH"(1) show ?thesis
      by (auto simp: emit_Inr)
  next
    case cOpen
    with "3.prems" "3.IH"(2,3) show ?thesis
      by (auto simp: emit_Inr split: if_splits sum.splits)
  next
    case cClose
    with "3.prems" "3.IH"(4,5) show ?thesis
      by (auto simp: emit_Inr split: if_splits sum.splits)
  next
    case cComma
    with "3.prems" "3.IH"(6) show ?thesis
      by (auto simp: emit_Inr split: if_splits sum.splits)
  next
    case cColon
    with "3.prems" "3.IH"(7) show ?thesis
      by (auto simp: emit_Inr split: if_splits sum.splits)
  next
    case cOther
    with "3.prems" "3.IH"(8) show ?thesis
      by (auto simp: emit_Inr)
  qed
qed

lemma literalsFrom_outside:
  "DQUOTE \<notin> set w \<Longrightarrow> literalsFrom False (w @ xs) = literalsFrom False xs"
  by (induction w) auto

lemma repeat_int_quote_free:
  "DQUOTE \<notin> set indent \<Longrightarrow> repeat_int indent n = Inr s \<Longrightarrow> DQUOTE \<notin> set s"
  by (auto simp: repeat_int_def split: if_splits)

text \<open>
  With an indent that has no \<open>"\<close>, the text that the scan puts out has the string
  literals of the text it reads, and no others.
\<close>

lemma scan_literals:
  "DQUOTE \<notin> set indent \<Longrightarrow> scan indent prev cs depth inString = Inr pieces \<Longrightarrow>
   literalsFrom inString (concat pieces) = literalsFrom inString cs"
proof (induction indent prev cs depth inString arbitrary: pieces rule: scan.induct)
  case (1 indent prev depth inString)
  then show ?case by simp
next
  case (2 indent prev c cs depth)
  then show ?case
    by (auto simp: emit_Inr split: if_splits list.splits)
next
  case (3 indent prev c cs depth)
  have ws: "literalsFrom False (w @ xs) = literalsFrom False xs"
    if "repeat_int indent n = Inr w" for w xs n
    using literalsFrom_outside repeat_int_quote_free [OF "3.prems"(1) that] by blast
  consider (cQuote) "c = DQUOTE"
    | (cOpen) "c = LBRACE \<or> c = LBRACKET"
    | (cClose) "c = RBRACE \<or> c = RBRACKET"
    | (cComma) "c = COMMA"
    | (cColon) "c = COLON"
    | (cOther) "c \<noteq> DQUOTE" "c \<noteq> LBRACE" "c \<noteq> LBRACKET"
        "c \<noteq> RBRACE" "c \<noteq> RBRACKET" "c \<noteq> COMMA" "c \<noteq> COLON"
    by blast
  then show ?case
  proof cases
    case cQuote
    with "3.prems" "3.IH"(1) show ?thesis
      by (auto simp: emit_Inr)
  next
    case cOpen
    with "3.prems" "3.IH"(2,3) show ?thesis
      by (auto simp: emit_Inr ws split: if_splits sum.splits)
  next
    case cClose
    with "3.prems" "3.IH"(4,5) show ?thesis
      by (auto simp: emit_Inr ws split: if_splits sum.splits)
  next
    case cComma
    with "3.prems" "3.IH"(6) show ?thesis
      by (auto simp: emit_Inr ws split: if_splits sum.splits)
  next
    case cColon
    with "3.prems" "3.IH"(7) show ?thesis
      by (auto simp: emit_Inr split: if_splits sum.splits)
  next
    case cOther
    with "3.prems" "3.IH"(8) show ?thesis
      by (auto simp: emit_Inr)
  qed
qed

lemma verbatim_nth:
  "verbatim ms cs ps \<Longrightarrow>
   length ps = length cs \<and> length ms = length cs \<and> (\<forall>i < length cs. ms ! i \<longrightarrow> ps ! i = [cs ! i])"
proof (induction ms cs ps rule: verbatim.induct)
  case 1
  then show ?case by simp
next
  case (2 m ms c cs p ps)
  then show ?case by (auto simp: nth_Cons split: nat.splits)
qed simp_all

lemma isl_emit [simp]: "isl (emit p r) = isl r"
  by (simp add: emit_def split: sum.splits)

lemma repeat_int_nonneg: "0 \<le> n \<Longrightarrow> \<exists>s. repeat_int indent n = Inr s"
  by (simp add: repeat_int_def)

lemma lastOr_simps [simp]:
  "lastOr prev [] = prev" "lastOr prev (xs @ [x]) = Some x" "lastOr prev [x] = Some x"
  by (simp_all add: lastOr_def)

lemma lastOr_append: "lastOr prev (a @ b) = lastOr (lastOr prev a) b"
  by (simp add: lastOr_def)

lemma segment_scan:
  "segment t \<Longrightarrow> 0 \<le> depth \<Longrightarrow>
   isl (scan indent prev (t @ rest) depth False) = isl (scan indent (lastOr prev t) rest depth False)"
  by (simp add: segment_def)

lemma segment_strip:
  "segment t \<Longrightarrow> stripFrom False (t @ rest) = t @ stripFrom False rest"
  by (simp add: segment_def)

lemma segment_ends:
  "segment t \<Longrightarrow> t \<noteq> [] \<Longrightarrow>
   hd t \<noteq> RBRACE \<and> hd t \<noteq> RBRACKET \<and> last t \<noteq> LBRACE \<and> last t \<noteq> LBRACKET"
  by (simp add: segment_def)

lemma segment_Nil: "segment []"
  by (simp add: segment_def)

lemma segment_append:
  assumes "segment a" "segment b"
  shows "segment (a @ b)"
proof -
  have s: "stripFrom False ((a @ b) @ rest) = (a @ b) @ stripFrom False rest" for rest
    using assms by (simp add: segment_strip)
  have k: "isl (scan indent prev ((a @ b) @ rest) depth False)
      = isl (scan indent (lastOr prev (a @ b)) rest depth False)" if "0 \<le> depth"
    for indent prev rest depth
  proof -
    have "isl (scan indent prev (a @ (b @ rest)) depth False)
        = isl (scan indent (lastOr prev a) (b @ rest) depth False)"
      using assms(1) that by (rule segment_scan)
    also have "\<dots> = isl (scan indent (lastOr (lastOr prev a) b) rest depth False)"
      using assms(2) that by (rule segment_scan)
    finally show ?thesis by (simp add: lastOr_append)
  qed
  have e: "a @ b \<noteq> [] \<longrightarrow> hd (a @ b) \<noteq> RBRACE \<and> hd (a @ b) \<noteq> RBRACKET
      \<and> last (a @ b) \<noteq> LBRACE \<and> last (a @ b) \<noteq> LBRACKET"
    using segment_ends [OF assms(1)] segment_ends [OF assms(2)]
    by (cases "a = []"; cases "b = []") auto
  from s k e show ?thesis
    unfolding segment_def by blast
qed

lemma segment_plain: "plainChar c \<Longrightarrow> segment [c]"
  by (simp add: segment_def plainChar_def)

lemma segment_plain_list: "\<forall>c \<in> set t. plainChar c \<Longrightarrow> segment t"
proof (induction t)
  case Nil
  show ?case by (rule segment_Nil)
next
  case (Cons c t)
  then have "segment ([c] @ t)"
    by (intro segment_append segment_plain) auto
  then show ?case by simp
qed

lemma segment_comma: "segment [COMMA]"
proof -
  have "isl (scan indent prev (COMMA # rest) depth False)
      = isl (scan indent (Some COMMA) rest depth False)" if "0 \<le> depth" for indent prev rest depth
    using repeat_int_nonneg [OF that, of indent] by auto
  then show ?thesis
    by (simp add: segment_def isWhitespace_def)
qed

lemma segment_colon: "segment [COLON]"
  by (simp add: segment_def isWhitespace_def)

lemma stringBody_append: "stringBody a \<Longrightarrow> stringBody b \<Longrightarrow> stringBody (a @ b)"
  by (induction a rule: stringBody.induct) (auto split: if_splits list.splits)

lemma stringBody_strip:
  "stringBody body \<Longrightarrow>
   stripFrom True (body @ DQUOTE # rest) = body @ DQUOTE # stripFrom False rest"
  by (induction body rule: stringBody.induct) (auto split: if_splits list.splits)

lemma stringBody_scan:
  "stringBody body \<Longrightarrow>
   isl (scan indent prev (body @ DQUOTE # rest) depth True)
   = isl (scan indent (Some DQUOTE) rest depth False)"
  by (induction body arbitrary: prev rule: stringBody.induct) (auto split: if_splits list.splits)

lemma segment_literal:
  assumes "stringBody body"
  shows "segment (DQUOTE # body @ [DQUOTE])"
  using stringBody_strip [OF assms] stringBody_scan [OF assms]
  by (simp add: segment_def lastOr_def)

lemma nextChar_simps [simp]:
  "nextChar [] = None" "nextChar (x # xs) = Some x"
  by (simp_all add: nextChar_def)

lemma nextChar_append: "a \<noteq> [] \<Longrightarrow> nextChar (a @ b) = Some (hd a)"
  by (cases a) simp_all

lemma segment_enclosed:
  assumes "segment j" and oc: "(opening, closing) = (LBRACKET, RBRACKET) \<or> (opening, closing) = (LBRACE, RBRACE)"
  shows "segment (opening # j @ [closing])"
proof -
  have nw: "\<not> isWhitespace opening" "\<not> isWhitespace closing" "opening \<noteq> DQUOTE" "closing \<noteq> DQUOTE"
    using oc by (auto simp: isWhitespace_def)
  have s: "stripFrom False ((opening # j @ [closing]) @ rest)
      = (opening # j @ [closing]) @ stripFrom False rest" for rest
    using assms(1) nw by (simp add: segment_strip)
  have k: "isl (scan indent prev ((opening # j @ [closing]) @ rest) depth False)
      = isl (scan indent (lastOr prev (opening # j @ [closing])) rest depth False)"
    if d: "0 \<le> depth" for indent prev rest depth
  proof (cases "j = []")
    case True
    with oc show ?thesis by (elim disjE) (simp_all add: lastOr_def)
  next
    case False
    with segment_ends [OF assms(1)]
    have ends: "hd j \<noteq> RBRACE" "hd j \<noteq> RBRACKET" "last j \<noteq> LBRACE" "last j \<noteq> LBRACKET"
      by simp_all
    have nx: "nextChar (j @ closing # rest) = Some (hd j)"
      using False by (simp add: nextChar_append)
    obtain s1 where s1: "repeat_int indent (depth + 1) = Inr s1"
      using repeat_int_nonneg [of "depth + 1" indent] d by auto
    obtain s0 where s0: "repeat_int indent depth = Inr s0"
      using repeat_int_nonneg [OF d, of indent] by auto
    have inner: "isl (scan indent (Some opening) (j @ (closing # rest)) (depth + 1) False)
        = isl (scan indent (lastOr (Some opening) j) (closing # rest) (depth + 1) False)"
      using assms(1) by (rule segment_scan) (use d in simp)
    have lj: "lastOr (Some opening) j = Some (last j)"
      using False by (simp add: lastOr_def)
    have "isl (scan indent prev (opening # j @ closing # rest) depth False)
        = isl (scan indent (Some opening) (j @ closing # rest) (depth + 1) False)"
      using oc nx ends s1 by (elim disjE) simp_all
    also have "\<dots> = isl (scan indent (Some (last j)) (closing # rest) (depth + 1) False)"
      using inner lj by simp
    also have "\<dots> = isl (scan indent (Some closing) rest depth False)"
      using oc ends s0 by (elim disjE) simp_all
    finally show ?thesis
      by (simp add: lastOr_def)
  qed
  have e: "hd (opening # j @ [closing]) \<noteq> RBRACE \<and> hd (opening # j @ [closing]) \<noteq> RBRACKET
      \<and> last (opening # j @ [closing]) \<noteq> LBRACE \<and> last (opening # j @ [closing]) \<noteq> LBRACKET"
    using oc by (elim disjE) simp_all
  from s k e show ?thesis
    unfolding segment_def by blast
qed

lemma segment_join: "\<forall>x \<in> set xs. segment x \<Longrightarrow> segment (join [COMMA] xs)"
proof (induction xs)
  case Nil
  show ?case by (simp add: segment_Nil)
next
  case (Cons x xs)
  show ?case
  proof (cases xs)
    case Nil
    with Cons.prems show ?thesis by simp
  next
    case (Cons y ys)
    have "segment (x @ [COMMA] @ join [COMMA] xs)"
      using Cons.prems Cons.IH by (intro segment_append segment_comma) auto
    with Cons show ?thesis by simp
  qed
qed

lemma plain_bodyChar: "plainChar c \<Longrightarrow> bodyChar c"
  by (simp add: plainChar_def bodyChar_def)

lemma stringBody_bodyChars: "\<forall>c \<in> set t. bodyChar c \<Longrightarrow> stringBody t"
  by (induction t) (auto simp: bodyChar_def)

lemma digit_plain: "d < 16 \<Longrightarrow> plainChar (digit d)"
proof -
  assume "d < 16"
  then have "d = 0 \<or> d = 1 \<or> d = 2 \<or> d = 3 \<or> d = 4 \<or> d = 5 \<or> d = 6 \<or> d = 7 \<or> d = 8
      \<or> d = 9 \<or> d = 10 \<or> d = 11 \<or> d = 12 \<or> d = 13 \<or> d = 14 \<or> d = 15"
    by arith
  then show ?thesis
    by (elim disjE) (simp_all add: digit_def plainChar_def isWhitespace_def)
qed

lemma digits_chars: "2 \<le> b \<Longrightarrow> \<forall>c \<in> set (digits b n). \<exists>d < b. c = digit d"
proof (induction b n rule: digits.induct)
  case (1 b n)
  show ?case
  proof (cases "n < b")
    case True
    then show ?thesis
      using "1.prems" by (subst digits.simps) auto
  next
    case False
    have "n mod b < b" using "1.prems" by simp
    then have "\<exists>d < b. digit (n mod b) = digit d" by blast
    with False "1.IH" "1.prems" show ?thesis
      by (subst digits.simps) auto
  qed
qed

lemma digits_plain: "2 \<le> b \<Longrightarrow> b \<le> 16 \<Longrightarrow> \<forall>c \<in> set (digits b n). plainChar c"
  using digits_chars [of b n] digit_plain by fastforce

lemma digits_nonempty: "digits b n \<noteq> []"
  by (subst digits.simps) simp

lemma str_plain:
  "\<forall>c \<in> set (str ''null''). plainChar c" "\<forall>c \<in> set (str ''true''). plainChar c"
  "\<forall>c \<in> set (str ''false''). plainChar c" "\<forall>c \<in> set (str ''.0''). plainChar c"
  "\<forall>c \<in> set (str ''.''). plainChar c" "\<forall>c \<in> set (str ''0.''). plainChar c"
  "\<forall>c \<in> set (str ''e''). plainChar c" "\<forall>c \<in> set (str ''+''). plainChar c"
  "\<forall>c \<in> set (str ''-''). plainChar c" "\<forall>c \<in> set (str ''0''). plainChar c"
  "\<forall>c \<in> set (str ''T''). plainChar c" "\<forall>c \<in> set (str ''Z''). plainChar c"
  "plainChar 0x30"
  by (simp_all add: str_def plainChar_def isWhitespace_def)

lemma padStart0_plain: "\<forall>c \<in> set s. plainChar c \<Longrightarrow> \<forall>c \<in> set (padStart0 w s). plainChar c"
  using str_plain(13) by (auto simp: padStart0_def)

lemma positiveToString_plain: "\<forall>c \<in> set (positiveToString s e). plainChar c"
proof -
  obtain s' e' where se: "strip_zeros s e = (s', e')"
    by (cases "strip_zeros s e")
  have dp: "\<forall>c \<in> set (digits 10 n). plainChar c" for n
    by (rule digits_plain) simp_all
  have tk: "\<forall>c \<in> set (take k (digits 10 n)). plainChar c"
    "\<forall>c \<in> set (drop k (digits 10 n)). plainChar c" for k n
    using dp [of n] by (auto dest: in_set_takeD in_set_dropD)
  show ?thesis
    unfolding positiveToString_def se
    using dp tk str_plain by (auto simp: Let_def)
qed

lemma positiveToString_nonempty: "positiveToString s e \<noteq> []"
proof -
  obtain s' e' where se: "strip_zeros s e = (s', e')"
    by (cases "strip_zeros s e")
  have ne: "digits 10 s' \<noteq> []" by (rule digits_nonempty)
  have e: "str ''e'' \<noteq> []" "str ''0.'' \<noteq> []" by (simp_all add: str_def)
  show ?thesis
    unfolding positiveToString_def se
    using ne e by (auto simp: Let_def)
qed

lemma numberToString_plain: "isFinite n \<Longrightarrow> \<forall>c \<in> set (numberToString n). plainChar c"
  using positiveToString_plain str_plain by (cases n) auto

lemma numberToString_nonempty: "isFinite n \<Longrightarrow> numberToString n \<noteq> []"
  using positiveToString_nonempty by (cases n) (auto simp: str_def)

lemma escapeChar_body: "stringBody (escapeChar c)"
proof (cases "c = DQUOTE \<or> c = BACKSLASH \<or> c \<le> 0x1F")
  case False
  then show ?thesis by (simp add: escapeChar_def)
next
  case True
  show ?thesis
  proof (cases "ESCAPE_MAP c")
    case None
    have "\<forall>x \<in> set (padStart0 4 (digits 16 (unat c))). plainChar x"
      by (intro padStart0_plain digits_plain) simp_all
    then have "stringBody (padStart0 4 (digits 16 (unat c)))"
      by (intro stringBody_bodyChars) (auto dest: plain_bodyChar)
    with True None show ?thesis
      by (simp add: escapeChar_def str_def)
  next
    case (Some e)
    then have "stringBody e"
      by (auto simp: ESCAPE_MAP_def str_def split: if_splits)
    with True Some show ?thesis
      by (simp add: escapeChar_def)
  qed
qed

lemma escapeString_body: "stringBody (escapeString s)"
  unfolding escapeString_def
  by (induction s) (simp_all add: stringBody_append escapeChar_body)

lemma isoYear_body: "\<forall>c \<in> set (isoYear y). bodyChar c"
proof -
  have "\<forall>c \<in> set (padStart0 w (digits 10 n)). plainChar c" for w n
    by (intro padStart0_plain digits_plain) simp_all
  then show ?thesis
    using str_plain by (auto simp: isoYear_def dest!: plain_bodyChar)
qed

lemma toISOString_bodyChars: "toISOString d = Inr t \<Longrightarrow> \<forall>c \<in> set t. bodyChar c"
proof -
  assume a: "toISOString d = Inr t"
  have p: "\<forall>c \<in> set (padStart0 w (digits 10 n)). bodyChar c" for w n
  proof -
    have "\<forall>c \<in> set (padStart0 w (digits 10 n)). plainChar c"
      by (intro padStart0_plain digits_plain) simp_all
    then show ?thesis by (auto dest: plain_bodyChar)
  qed
  have s: "\<forall>c \<in> set (str ''-''). bodyChar c" "\<forall>c \<in> set (str ''T''). bodyChar c"
    "\<forall>c \<in> set (str '':''). bodyChar c" "\<forall>c \<in> set (str ''.''). bodyChar c"
    "\<forall>c \<in> set (str ''Z''). bodyChar c"
    by (simp_all add: str_def bodyChar_def)
  from a obtain dt where "d = Some dt" and t: "t = isoYear (year dt) @ str ''-'' @ padStart0 2 (digits 10 (month dt))
               @ str ''-'' @ padStart0 2 (digits 10 (day dt))
               @ str ''T'' @ padStart0 2 (digits 10 (hours dt))
               @ str '':'' @ padStart0 2 (digits 10 (minutes dt))
               @ str '':'' @ padStart0 2 (digits 10 (seconds dt))
               @ str ''.'' @ padStart0 3 (digits 10 (milliseconds dt))
               @ str ''Z''"
    by (auto simp: toISOString_def split: option.splits)
  show "\<forall>c \<in> set t. bodyChar c"
    unfolding t using p s isoYear_body by (simp add: ball_Un)
qed

lemma sequence_map_Inr:
  "sequence (map f xs) = Inr ys \<Longrightarrow> \<forall>y \<in> set ys. \<exists>x \<in> set xs. f x = Inr y"
proof (induction xs arbitrary: ys)
  case Nil
  then show ?case by simp
next
  case (Cons x xs)
  then show ?case
    by (cases "f x") (auto split: sum.splits)
qed

lemma set_map_filter_id: "set (List.map_filter id ps) = {p. Some p \<in> set ps}"
  by (induction ps) (auto simp: List.map_filter_simps split: option.splits)

text \<open>
  The values built from primitive values, wrappers, Dates, array literals and object
  literals are regular.
\<close>

lemma list_all_bodyChar: "list_all bodyChar t \<Longrightarrow> stringBody t"
  by (rule stringBody_bodyChars) (simp add: list_all_iff)

lemma regular_newDate: "regular (newDate d)"
  using toISOString_bodyChars [of d]
  by (cases "toISOString d") (simp_all add: newDate_def list_all_iff)

lemma regular_Double: "Double v = Inr w \<Longrightarrow> regular w"
  by (cases v) auto

lemma regular_arrayLiteral:
  "regular (arrayLiteral items) \<longleftrightarrow> (\<forall>v. Some v \<in> set items \<longrightarrow> regular v)"
  by (auto simp: arrayLiteral_def list_all_iff split: option.splits)

lemma regular_objectLiteral:
  "regular (objectLiteral ps) \<longleftrightarrow> (\<forall>(key, v) \<in> set ps. regular v)"
  by (auto simp: objectLiteral_def list_all_iff)

text \<open>The text of a regular value is a segment.\<close>

lemma serializeValue_segment:
  "regular v \<Longrightarrow> serializeValue v = Inr (Some t) \<Longrightarrow> segment t \<and> t \<noteq> []"
proof (induction v arbitrary: t rule: serializeValue.induct)
  case 1
  then show ?case by simp
next
  case 2
  then show ?case by simp
next
  case 3
  then show ?case by simp
next
  case 4
  then show ?case
    using segment_plain_list [OF str_plain(1)] by (auto simp: str_def)
next
  case (5 b)
  then show ?case
    using segment_plain_list [OF str_plain(2)] segment_plain_list [OF str_plain(3)]
    by (auto simp: str_def split: if_splits)
next
  case (6 s)
  then show ?case
    using segment_literal [OF escapeString_body, of s] by auto
next
  case (7 ob)
  note reg = "7.prems"(1) and ser = "7.prems"(2)
  show ?case
  proof (cases "marking ob")
    case (MarkerThrows err)
    with ser show ?thesis
      by (simp add: get_DOUBLE_MARKER_def)
  next
    case (Marked r)
    have "\<exists>num. r = Inr (Numeric num)"
    proof (cases r)
      case (Inl err)
      with Marked ser show ?thesis
        by (simp add: get_DOUBLE_MARKER_def serializeDouble_def)
    next
      case (Inr x)
      with Marked reg show ?thesis
        by (cases x) simp_all
    qed
    then obtain num where "r = Inr (Numeric num)" ..
    with Marked ser have t: "t = (if \<not> isFinite num then str ''null''
                else if Number_isInteger num then numberToString num @ str ''.0''
                else numberToString num)"
      by (auto simp: get_DOUBLE_MARKER_def serializeDouble_def split: if_splits)
    have "\<forall>c \<in> set t. plainChar c"
      unfolding t using numberToString_plain [of num] str_plain by auto
    moreover have "t \<noteq> []"
      unfolding t using numberToString_nonempty [of num] by (auto simp: str_def)
    ultimately show ?thesis
      using segment_plain_list by blast
  next
    case Unmarked
    then have m: "isDoubleNumber (VObject ob) = Inr False"
      by (simp add: get_DOUBLE_MARKER_def)
    show ?thesis
    proof (cases "dating ob")
      case (InstanceofThrows err)
      with m ser show ?thesis by simp
    next
      case (IsDate r)
      with m ser obtain isoText where r: "r = Inr isoText"
        and t: "t = [DQUOTE] @ isoText @ [DQUOTE]"
        by (auto simp: serializeDate_def split: sum.splits)
      from reg IsDate r have "list_all bodyChar isoText" by simp
      from segment_literal [OF list_all_bodyChar [OF this]] t show ?thesis by simp
    next
      case NotDate
      show ?thesis
      proof (cases "conversion ob")
        case (ToJSONThrows err)
        with m NotDate ser show ?thesis by simp
      next
        case (ToJSON result)
        with m NotDate ser obtain r where r: "result = Inr r" and tr: "serializeValue r = Inr (Some t)"
          by (auto split: sum.splits)
        from reg ToJSON r have "regular r" by simp
        from "7.IH"(3) [OF m _ NotDate ToJSON r this tr] show ?thesis by simp
      next
        case NoToJSON
        show ?thesis
        proof (cases "content ob")
          case (ArrayJoined joinedText)
          with reg show ?thesis by simp
        next
          case (ArrayItems elems)
          let ?f = "\<lambda>item. case item of None \<Rightarrow> Inr None
                            | Some (Inl err) \<Rightarrow> Inl err
                            | Some (Inr v) \<Rightarrow> map_sum id Some (orNull (serializeValue v))"
          from m NotDate NoToJSON ArrayItems ser obtain items where
            items: "sequence (map ?f elems) = Inr items"
            and t: "t = [LBRACKET] @ joinItems items @ [RBRACKET]"
            by (auto simp: arrayText_def split: sum.splits)
          from reg ArrayItems have regs: "regular v" if "Some (Inr v) \<in> set elems" for v
            using that by (auto simp: list_all_iff)
          have "segment (case item of None \<Rightarrow> [] | Some t \<Rightarrow> t)" if "item \<in> set items" for item
          proof (cases item)
            case None
            then show ?thesis by (simp add: segment_Nil)
          next
            case (Some s)
            from sequence_map_Inr [OF items] that obtain x where
              x: "x \<in> set elems" "?f x = Inr item"
              by blast
            with Some obtain v where v: "x = Some (Inr v)" "orNull (serializeValue v) = Inr s"
              by (cases x; cases "the x"; cases "orNull (serializeValue (projr (the x)))") auto
            show ?thesis
            proof (cases "serializeValue v")
              case (Inl err)
              with v show ?thesis by (simp add: orNull_def)
            next
              case (Inr r)
              show ?thesis
              proof (cases r)
                case None
                with Inr v Some show ?thesis
                  using segment_plain_list [OF str_plain(1)] by (auto simp: orNull_def)
              next
                case (Some s')
                with Inr v have sv: "serializeValue v = Inr (Some s)"
                  by (simp add: orNull_def)
                have "regular v" using regs x(1) v(1) by simp
                from "7.IH"(1) [OF m _ NotDate NoToJSON ArrayItems x(1) v(1) refl this sv]
                  \<open>item = Some s\<close>
                show ?thesis by simp
              qed
            qed
          qed
          then have "segment (joinItems items)"
            unfolding joinItems_def by (intro segment_join) auto
          then have "segment (LBRACKET # joinItems items @ [RBRACKET])"
            by (rule segment_enclosed) simp
          with t show ?thesis by simp
        next
          case (Properties keys)
          let ?g = "\<lambda>(key, r). case r of Inl err \<Rightarrow> Inl err
                                  | Inr v \<Rightarrow> pairOf key (serializeValue v)"
          from m NotDate NoToJSON Properties ser obtain ps pairs where
            ps: "keys = Inr ps"
            and pairs: "sequence (map ?g ps) = Inr pairs"
            and t: "t = [LBRACE] @ join [COMMA] (List.map_filter id pairs) @ [RBRACE]"
            by (auto simp: objectText_def split: sum.splits)
          from reg Properties ps have regs: "regular v" if "(key, Inr v) \<in> set ps" for key v
            using that by (auto simp: list_all_iff)
          have "segment p" if "p \<in> set (List.map_filter id pairs)" for p
          proof -
            from that have "Some p \<in> set pairs"
              by (simp add: set_map_filter_id)
            with sequence_map_Inr [OF pairs] obtain key r where
              kr: "(key, r) \<in> set ps" "?g (key, r) = Inr (Some p)"
              by fastforce
            then obtain v where v: "r = Inr v" and pv: "pairOf key (serializeValue v) = Inr (Some p)"
              by (cases r) auto
            then obtain sv where sv: "serializeValue v = Inr (Some sv)"
              and p: "p = [DQUOTE] @ escapeString key @ [DQUOTE] @ [COLON] @ sv"
              by (auto simp: pairOf_def split: sum.splits option.splits)
            have 1: "segment (DQUOTE # escapeString key @ [DQUOTE])"
              by (rule segment_literal [OF escapeString_body])
            have "regular v" using regs kr(1) v by simp
            from "7.IH"(2) [OF m _ NotDate NoToJSON Properties ps kr(1) refl v this sv]
            have 2: "segment sv" by simp
            have "segment ((DQUOTE # escapeString key @ [DQUOTE]) @ [COLON] @ sv)"
              by (intro segment_append 1 2 segment_colon)
            with p show ?thesis by simp
          qed
          then have "segment (join [COMMA] (List.map_filter id pairs))"
            by (intro segment_join) auto
          then have "segment (LBRACE # join [COMMA] (List.map_filter id pairs) @ [RBRACE])"
            by (rule segment_enclosed) simp
          with t show ?thesis by simp
        qed
      qed
    qed
  qed
next
  case (8 n)
  then have t: "isFinite n \<Longrightarrow> t = numberToString n" "\<not> isFinite n \<Longrightarrow> t = str ''null''"
    by (auto split: if_splits)
  have "\<forall>c \<in> set t. plainChar c"
    using t numberToString_plain [of n] str_plain by (cases "isFinite n") auto
  moreover have "t \<noteq> []"
    using t numberToString_nonempty [of n] by (cases "isFinite n") (auto simp: str_def)
  ultimately show ?case
    using segment_plain_list by blast
next
  case (9 i)
  then show ?case by simp
qed

lemma prettyPrint_returns:
  assumes "regular v" and "serializeValue v = Inr (Some t)"
  shows "\<exists>pieces. scan indent None t 0 False = Inr pieces \<and> prettyPrint t indent = Inr (concat pieces)"
proof -
  from serializeValue_segment [OF assms] have "segment t" by simp
  from segment_scan [OF this, of 0 indent None "[]"]
  have "\<not> isl (scan indent None t 0 False)" by simp
  then obtain pieces where "scan indent None t 0 False = Inr pieces"
    by (cases "scan indent None t 0 False") auto
  then show ?thesis
    by (simp add: prettyPrint_scan joined_def)
qed

lemma prettyPrint_strip:
  assumes "regular v" and "serializeValue v = Inr (Some t)" and "\<forall>c \<in> set indent. isWhitespace c"
  shows "\<exists>out. prettyPrint t indent = Inr out \<and> stripWhitespace out = t"
proof -
  from prettyPrint_returns [OF assms(1,2), of indent] obtain pieces where
    p: "scan indent None t 0 False = Inr pieces" "prettyPrint t indent = Inr (concat pieces)"
    by blast
  from serializeValue_segment [OF assms(1,2)] have "segment t" by simp
  from segment_strip [OF this, of "[]"] have "stripFrom False t = t" by simp
  with scan_strip [OF assms(3) p(1)] p(2) show ?thesis
    by (simp add: stripWhitespace_def)
qed

text \<open>
  C3, as the code has it. The indent is any string of up to ten code units; with the indent
  \<open>"\<close> the text \<open>["a"]\<close> is reflowed to \<open>[\<close>, newline, \<open>""a"\<close>, newline, \<open>]\<close>, whose string
  literals are \<open>""\<close> and an unfinished one, not \<open>"a"\<close>. And the text of a Date is its
  \<open>toISOString()\<close> between quotes, not escaped: for a Date whose \<open>toISOString\<close> returns
  \<open>"]\<close> the text is \<open>""]"\<close>, on which \<open>prettyPrint\<close> throws a \<open>RangeError\<close>, as it
  does on the text \<open>]\<close> of a marked object whose \<open>valueOf()\<close> prints so, and on the text
  \<open>[]]\<close> of an array whose \<open>join\<close> returns \<open>]\<close>.
\<close>

theorem prettyPrint_literals_counterexample:
  "serializeValue (arrayLiteral [Some (VString (str ''a''))])
     = Inr (Some ([LBRACKET, DQUOTE] @ str ''a'' @ [DQUOTE, RBRACKET]))
   \<and> prettyPrint ([LBRACKET, DQUOTE] @ str ''a'' @ [DQUOTE, RBRACKET]) [DQUOTE]
     = Inr ([LBRACKET, NEWLINE, DQUOTE, DQUOTE] @ str ''a'' @ [DQUOTE, NEWLINE, RBRACKET])
   \<and> literals ([LBRACKET, DQUOTE] @ str ''a'' @ [DQUOTE, RBRACKET]) = [[DQUOTE] @ str ''a'' @ [DQUOTE]]
   \<and> literals ([LBRACKET, NEWLINE, DQUOTE, DQUOTE] @ str ''a'' @ [DQUOTE, NEWLINE, RBRACKET])
     = [[DQUOTE, DQUOTE], [DQUOTE, NEWLINE, RBRACKET]]
   \<and> serializeValue (dateWithText [DQUOTE, RBRACKET]) = Inr (Some [DQUOTE, DQUOTE, RBRACKET, DQUOTE])
   \<and> prettyPrint [DQUOTE, DQUOTE, RBRACKET, DQUOTE] [SPACE, SPACE] = Inl RangeError
   \<and> serializeValue (markedWithText [RBRACKET]) = Inr (Some [RBRACKET])
   \<and> prettyPrint [RBRACKET] [SPACE, SPACE] = Inl RangeError
   \<and> serializeValue (arrayJoinedAs [RBRACKET]) = Inr (Some [LBRACKET, RBRACKET, RBRACKET])
   \<and> prettyPrint [LBRACKET, RBRACKET, RBRACKET] [SPACE, SPACE] = Inl RangeError"
  by (simp add: arrayLiteral_def dateWithText_def markedWithText_def arrayJoinedAs_def
      get_DOUBLE_MARKER_def arrayText_def orNull_def serializeDouble_def
      joinItems_def serializeDate_def escapeString_def escapeChar_def str_def
      prettyPrint_scan joined_def emit_def repeat_int_def nextChar_def literals_def)

text \<open>
  C3, amended. On the text of a regular value and with an indent that has no \<open>"\<close>,
  \<open>prettyPrint\<close> returns, and the string literals of its result are the string literals
  of the text, in order, character by character. The result is the concatenation of one piece
  per character of the text, where the piece of every character inside a string literal
  (quotes, escaped characters and the digits of a \<open>\u\<close> escape included) is that character
  alone: every newline, space and indent belongs to the piece of a character outside the
  literals.
\<close>

theorem prettyPrint_literals_verbatim:
  "regular v \<Longrightarrow> serializeValue v = Inr (Some t) \<Longrightarrow> DQUOTE \<notin> set indent \<Longrightarrow>
   \<exists>out pieces. prettyPrint t indent = Inr out \<and> literals out = literals t
     \<and> out = concat pieces \<and> length pieces = length t
     \<and> (\<forall>i < length t. literalMask False t ! i \<longrightarrow> pieces ! i = [t ! i])"
proof -
  assume r: "regular v" and a: "serializeValue v = Inr (Some t)" and q: "DQUOTE \<notin> set indent"
  from prettyPrint_returns [OF r a, of indent] obtain pieces where
    p: "scan indent None t 0 False = Inr pieces" "prettyPrint t indent = Inr (concat pieces)"
    by blast
  from scan_literals [OF q p(1)] have "literals (concat pieces) = literals t"
    by (simp add: literals_def)
  with verbatim_nth [OF scan_verbatim [OF p(1)]] p(2) show ?thesis
    by blast
qed

theorem prettyPrint_literals_verbatim_witness:
  "serializeValue (objectLiteral [(str ''k'', VString ([DQUOTE] @ str '',{''))])
     = Inr (Some (str ''{'' @ [DQUOTE] @ str ''k'' @ [DQUOTE] @ str '':''
                  @ [DQUOTE, BACKSLASH, DQUOTE] @ str '',{'' @ [DQUOTE] @ str ''}''))
   \<and> (\<exists>out pieces. prettyPrint (str ''{'' @ [DQUOTE] @ str ''k'' @ [DQUOTE] @ str '':''
                  @ [DQUOTE, BACKSLASH, DQUOTE] @ str '',{'' @ [DQUOTE] @ str ''}'') (str ''ab'')
          = Inr out
        \<and> literals out = [[DQUOTE] @ str ''k'' @ [DQUOTE],
                           [DQUOTE, BACKSLASH, DQUOTE] @ str '',{'' @ [DQUOTE]]
        \<and> out = concat pieces
        \<and> length pieces = 12
        \<and> pieces ! 1 = [DQUOTE] \<and> pieces ! 2 = str ''k'' \<and> pieces ! 3 = [DQUOTE]
        \<and> pieces ! 5 = [DQUOTE] \<and> pieces ! 6 = [BACKSLASH] \<and> pieces ! 7 = [DQUOTE]
        \<and> pieces ! 8 = str '','' \<and> pieces ! 9 = str ''{'' \<and> pieces ! 10 = [DQUOTE])"
proof -
  let ?v = "objectLiteral [(str ''k'', VString ([DQUOTE] @ str '',{''))]"
  let ?t = "str ''{'' @ [DQUOTE] @ str ''k'' @ [DQUOTE] @ str '':''
                  @ [DQUOTE, BACKSLASH, DQUOTE] @ str '',{'' @ [DQUOTE] @ str ''}''"
  have r: "regular ?v"
    by (simp add: objectLiteral_def)
  have s: "serializeValue ?v = Inr (Some ?t)"
    by (simp add: objectLiteral_def get_DOUBLE_MARKER_def objectText_def pairOf_def escapeString_def
        escapeChar_def ESCAPE_MAP_def List.map_filter_simps str_def)
  have q: "DQUOTE \<notin> set (str ''ab'')"
    by (simp add: str_def)
  have m: "literalMask False ?t
      = [False, True, True, True, False, True, True, True, True, True, True, False]"
    by (simp add: str_def)
  have ls: "literals ?t = [[DQUOTE] @ str ''k'' @ [DQUOTE],
                           [DQUOTE, BACKSLASH, DQUOTE] @ str '',{'' @ [DQUOTE]]"
    by (simp add: literals_def str_def)
  from prettyPrint_literals_verbatim [OF r s q] obtain out pieces where
    p: "prettyPrint ?t (str ''ab'') = Inr out" "literals out = literals ?t"
      "out = concat pieces" "length pieces = length ?t"
      "\<forall>i < length ?t. literalMask False ?t ! i \<longrightarrow> pieces ! i = [?t ! i]"
    by blast
  have l: "length ?t = 12" by (simp add: str_def)
  have "pieces ! i = [?t ! i]" if "i \<in> {1, 2, 3, 5, 6, 7, 8, 9, 10}" for i
  proof -
    from that have "i < length ?t" "literalMask False ?t ! i"
      unfolding m l by auto
    with p(5) show ?thesis by blast
  qed
  from this [of 1] this [of 2] this [of 3] this [of 5] this [of 6] this [of 7] this [of 8]
    this [of 9] this [of 10]
  have "pieces ! 1 = [DQUOTE] \<and> pieces ! 2 = str ''k'' \<and> pieces ! 3 = [DQUOTE]
        \<and> pieces ! 5 = [DQUOTE] \<and> pieces ! 6 = [BACKSLASH] \<and> pieces ! 7 = [DQUOTE]
        \<and> pieces ! 8 = str '','' \<and> pieces ! 9 = str ''{'' \<and> pieces ! 10 = [DQUOTE]"
    by (simp add: str_def)
  with s p(1,2,3,4) l ls show ?thesis
    by auto
qed

text \<open>
  C4, as the code has it. With the indent \<open>-\<close> the text \<open>[1]\<close> is reflowed to a text from
  which removing whitespace gives \<open>[-1]\<close>. And for a Date whose \<open>toISOString\<close> returns
  \<open>a" "b\<close> the text is \<open>"a" "b"\<close>, with a space outside the literals: \<open>prettyPrint\<close>
  copies it, and removing whitespace gives \<open>"a""b"\<close>. The text of a marked object
  whose \<open>valueOf()\<close> prints as a space and \<open>1\<close>, and the text \<open>[ ]\<close> of an array whose
  \<open>join\<close> returns a space, lose their space in the same way.
\<close>

theorem prettyPrint_strip_counterexample:
  "serializeValue (arrayLiteral [Some (VNumber (Finite False 1 0))]) = Inr (Some (str ''[1]''))
   \<and> prettyPrint (str ''[1]'') (str ''-'') = Inr ([LBRACKET, NEWLINE] @ str ''-1'' @ [NEWLINE, RBRACKET])
   \<and> stripWhitespace ([LBRACKET, NEWLINE] @ str ''-1'' @ [NEWLINE, RBRACKET]) = str ''[-1]''
   \<and> str ''[-1]'' \<noteq> str ''[1]''
   \<and> serializeValue (dateWithText (str ''a'' @ [DQUOTE, SPACE, DQUOTE] @ str ''b''))
     = Inr (Some ([DQUOTE] @ str ''a'' @ [DQUOTE, SPACE, DQUOTE] @ str ''b'' @ [DQUOTE]))
   \<and> prettyPrint ([DQUOTE] @ str ''a'' @ [DQUOTE, SPACE, DQUOTE] @ str ''b'' @ [DQUOTE]) [SPACE, SPACE]
     = Inr ([DQUOTE] @ str ''a'' @ [DQUOTE, SPACE, DQUOTE] @ str ''b'' @ [DQUOTE])
   \<and> stripWhitespace ([DQUOTE] @ str ''a'' @ [DQUOTE, SPACE, DQUOTE] @ str ''b'' @ [DQUOTE])
     = [DQUOTE] @ str ''a'' @ [DQUOTE, DQUOTE] @ str ''b'' @ [DQUOTE]
   \<and> serializeValue (markedWithText (SPACE # str ''1'')) = Inr (Some (SPACE # str ''1''))
   \<and> prettyPrint (SPACE # str ''1'') [SPACE, SPACE] = Inr (SPACE # str ''1'')
   \<and> stripWhitespace (SPACE # str ''1'') = str ''1''
   \<and> serializeValue (arrayJoinedAs [SPACE]) = Inr (Some [LBRACKET, SPACE, RBRACKET])
   \<and> prettyPrint [LBRACKET, SPACE, RBRACKET] [SPACE, SPACE]
     = Inr [LBRACKET, NEWLINE, SPACE, SPACE, SPACE, NEWLINE, RBRACKET]
   \<and> stripWhitespace [LBRACKET, NEWLINE, SPACE, SPACE, SPACE, NEWLINE, RBRACKET]
     = [LBRACKET, RBRACKET]"
  by (simp add: arrayLiteral_def dateWithText_def markedWithText_def arrayJoinedAs_def
      get_DOUBLE_MARKER_def arrayText_def orNull_def serializeDouble_def
      joinItems_def serializeDate_def
      positiveToString_def strip_zeros.simps digits.simps digit_def str_def
      prettyPrint_scan joined_def emit_def repeat_int_def nextChar_def
      stripWhitespace_def isWhitespace_def)

text \<open>
  C4, amended. For every indent made of whitespace only, \<open>prettyPrint\<close> returns on the text
  of a regular value, and removing the whitespace outside string literals from its result
  gives the text back.
\<close>

theorem prettyPrint_strip_whitespace:
  "regular v \<Longrightarrow> serializeValue v = Inr (Some t) \<Longrightarrow> \<forall>c \<in> set indent. isWhitespace c \<Longrightarrow>
   \<exists>out. prettyPrint t indent = Inr out \<and> stripWhitespace out = t"
  by (rule prettyPrint_strip)

theorem prettyPrint_strip_whitespace_witness:
  "serializeValue (arrayLiteral [Some (VNumber (Finite False 1 0)), Some (VString (str ''a b''))])
     = Inr (Some (str ''[1,'' @ [DQUOTE] @ str ''a b'' @ [DQUOTE] @ str '']''))
   \<and> regular (arrayLiteral [Some (VNumber (Finite False 1 0)), Some (VString (str ''a b''))])
   \<and> isWhitespace SPACE \<and> isWhitespace 0x09
   \<and> (\<exists>out. prettyPrint (str ''[1,'' @ [DQUOTE] @ str ''a b'' @ [DQUOTE] @ str '']'') [SPACE, 0x09] = Inr out
        \<and> stripWhitespace out = str ''[1,'' @ [DQUOTE] @ str ''a b'' @ [DQUOTE] @ str '']'')"
proof -
  let ?v = "arrayLiteral [Some (VNumber (Finite False 1 0)), Some (VString (str ''a b''))]"
  have r: "regular ?v"
    by (simp add: arrayLiteral_def)
  have s: "serializeValue ?v = Inr (Some (str ''[1,'' @ [DQUOTE] @ str ''a b'' @ [DQUOTE] @ str '']''))"
    by (simp add: arrayLiteral_def get_DOUBLE_MARKER_def arrayText_def orNull_def joinItems_def
        escapeString_def escapeChar_def positiveToString_def strip_zeros.simps digits.simps
        digit_def str_def)
  have w: "\<forall>c \<in> set [SPACE, 0x09]. isWhitespace c"
    by (simp add: isWhitespace_def)
  from prettyPrint_strip_whitespace [OF r s w] r s w show ?thesis
    by simp
qed




end
